theory Spec2Isabelle
  imports Main "HOL-Library.Word"
begin

unbundle bit_operations_syntax

section \<open>Machine integers and addresses\<close>

text \<open>
  Go's \<^verbatim>\<open>int\<close> is a signed 64-bit integer on the usual platforms (on a 32-bit platform
  it has 32 bits, and what is said here of 64 holds of 32). It is modelled as an
  \<^typ>\<open>int\<close> that is wrapped into the range \<open>-2^63 .. 2^63 - 1\<close> after every arithmetic
  operation. A shift \<^verbatim>\<open>1 << uint(n)\<close> is \<open>2 ^ n\<close> wrapped, which is \<open>0\<close> from
  \<open>n = 64\<close> on and \<open>-2^63\<close> at \<open>n = 63\<close>, as in Go.
\<close>

definition wrap64 :: "int \<Rightarrow> int" where
  "wrap64 x = (x + 2 ^ 63) mod 2 ^ 64 - 2 ^ 63"

definition iadd :: "int \<Rightarrow> int \<Rightarrow> int" where
  "iadd a b = wrap64 (a + b)"

definition isub :: "int \<Rightarrow> int \<Rightarrow> int" where
  "isub a b = wrap64 (a - b)"

definition ineg :: "int \<Rightarrow> int" where
  "ineg a = wrap64 (- a)"

definition shl1 :: "int \<Rightarrow> int" where
  "shl1 n = wrap64 (2 ^ nat n)"

type_synonym byte = "8 word"

text \<open>\<^verbatim>\<open>net.IPNet\<close>: an address and a mask, both byte slices (a nil slice is \<open>[]\<close>).\<close>

record IPNet =
  IP :: "byte list"
  Mask :: "byte list"

subsection \<open>The functions of Go's \<^verbatim>\<open>net\<close> package that the seeders call\<close>

text \<open>
  \<^verbatim>\<open>IPMask.Size\<close> and \<^verbatim>\<open>IP.Mask\<close> belong to Go's standard library. They are written here
  as the library defines them, since the host bits and every generated address depend on
  them.
\<close>

text \<open>
  \<^verbatim>\<open>simpleMaskLength\<close>: the number of leading one bits of a mask of the form
  \<open>1\<dots>10\<dots>0\<close>, and \<open>-1\<close> for any other mask. \<open>leadingOnes\<close> is its inner loop
  \<^verbatim>\<open>for v&0x80 != 0 { n++; v <<= 1 }\<close>, which runs at most eight times on a byte.
\<close>

fun leadingOnes :: "nat \<Rightarrow> byte \<Rightarrow> int \<Rightarrow> int \<times> byte" where
  "leadingOnes 0 v n = (n, v)"
| "leadingOnes (Suc k) v n =
     (if v AND 0x80 \<noteq> 0 then leadingOnes k (push_bit 1 v) (n + 1) else (n, v))"

fun simpleMaskLength_from :: "byte list \<Rightarrow> int \<Rightarrow> int" where
  "simpleMaskLength_from [] n = n"
| "simpleMaskLength_from (v # rest) n =
     (if v = 0xff then simpleMaskLength_from rest (n + 8)
      else (case leadingOnes 8 v n of (n', v') \<Rightarrow>
              if v' \<noteq> 0 then - 1
              else if list_ex (\<lambda>b. b \<noteq> 0) rest then - 1
              else n'))"

definition simpleMaskLength :: "byte list \<Rightarrow> int" where
  "simpleMaskLength msk = simpleMaskLength_from msk 0"

text \<open>\<^verbatim>\<open>IPMask.Size\<close>: \<open>(ones, bits)\<close>, and \<open>(0, 0)\<close> for a mask that is not canonical.\<close>

definition Size :: "byte list \<Rightarrow> int \<times> int" where
  "Size m = (let ones = simpleMaskLength m; bits = int (length m) * 8
             in if ones = - 1 then (0, 0) else (ones, bits))"

definition allFF :: "byte list \<Rightarrow> bool" where
  "allFF b = list_all (\<lambda>c. c = 0xff) b"

definition v4InV6Prefix :: "byte list" where
  "v4InV6Prefix = [0, 0, 0, 0, 0, 0, 0, 0, 0, 0, 0xff, 0xff]"

text \<open>
  \<^verbatim>\<open>IP.Mask\<close>: the address ANDed with the mask byte by byte, after bringing a 4-byte and
  a 16-byte operand to the same length; nil when the lengths still differ.
\<close>

definition IP_Mask :: "byte list \<Rightarrow> byte list \<Rightarrow> byte list" where
  "IP_Mask ip msk =
     (let mask1 = (if length msk = 16 \<and> length ip = 4 \<and> allFF (take 12 msk)
                   then drop 12 msk else msk);
          ip1 = (if length mask1 = 4 \<and> length ip = 16 \<and> take 12 ip = v4InV6Prefix
                 then drop 12 ip else ip)
      in if length ip1 \<noteq> length mask1 then []
         else map2 (\<lambda>a b. a AND b) ip1 mask1)"

section \<open>The address arithmetic of the seeders\<close>

text \<open>
  \<^verbatim>\<open>subnetBits, maskBits := s.ipnet.Mask.Size(); hostBits := maskBits - subnetBits\<close>
\<close>

definition hostBits :: "IPNet \<Rightarrow> int" where
  "hostBits ipnet = (case Size (Mask ipnet) of (subnetBits, maskBits) \<Rightarrow> maskBits - subnetBits)"

text \<open>
  The loop of \<^verbatim>\<open>scanSeeder.run\<close> that computes \<^verbatim>\<open>hostIP\<close>:
  \<^verbatim>\<open>for i := 0; i < hostBits; i++ { hostIP += int(IP[len(IP)-1-i/8]) & (1 << uint(i%8)) }\<close>.
  The second argument is \<open>i\<close>, the third the number of iterations left. An index out of
  range panics: the result is \<open>None\<close>.
\<close>

fun hostIP_loop :: "byte list \<Rightarrow> nat \<Rightarrow> nat \<Rightarrow> int \<Rightarrow> int option" where
  "hostIP_loop ip i 0 hostIP = Some hostIP"
| "hostIP_loop ip i (Suc r) hostIP =
     (let idx = int (length ip) - 1 - int (i div 8)
      in if idx < 0 \<or> int (length ip) \<le> idx then None
         else hostIP_loop ip (Suc i) r
                (iadd hostIP (uint (ip ! nat idx) AND shl1 (int (i mod 8)))))"

definition hostIP_of :: "IPNet \<Rightarrow> int option" where
  "hostIP_of ipnet = hostIP_loop (IP ipnet) 0 (nat (hostBits ipnet)) 0"

text \<open>
  The address generation shared by both seeders:
  \<^verbatim>\<open>host := IP.Mask(Mask); for i := len(host)-1; i >= 0; i-- { host[i] |= byte(nextIP & 255); nextIP >>= 8 }\<close>.
  \<open>fill (i + 1)\<close> is the loop at index \<open>i\<close>.
\<close>

fun fill :: "nat \<Rightarrow> byte list \<Rightarrow> int \<Rightarrow> byte list" where
  "fill 0 host nextIP = host"
| "fill (Suc i) host nextIP =
     fill i (host[i := host ! i OR word_of_int (nextIP AND 255)]) (drop_bit 8 nextIP)"

definition mkHost :: "IPNet \<Rightarrow> int \<Rightarrow> byte list" where
  "mkHost ipnet nextIP = (let host = IP_Mask (IP ipnet) (Mask ipnet) in fill (length host) host nextIP)"

subsection \<open>One iteration of the scanning loop\<close>

record scan_state =
  up :: bool
  down :: bool
  offset :: int

definition scan_init :: scan_state where
  "scan_init = \<lparr>up = True, down = True, offset = 0\<rparr>"

text \<open>
  The update of the offset, \<^verbatim>\<open>offset = -offset; if offset >= 0 { offset++ }\<close>, and the
  body of the loop of \<^verbatim>\<open>scanSeeder.run\<close> up to its \<^verbatim>\<open>select\<close>: the new loop state and the
  host segment to offer, or \<open>None\<close> where the iteration ends in \<^verbatim>\<open>continue\<close>.
\<close>

definition flip_offset :: "int \<Rightarrow> int" where
  "flip_offset off = (let off1 = ineg off in if 0 \<le> off1 then iadd off1 1 else off1)"

definition scan_step :: "int \<Rightarrow> int \<Rightarrow> scan_state \<Rightarrow> scan_state \<times> int option" where
  "scan_step hostIP hb st =
     (let st0 = (if \<not> up st \<and> \<not> down st then scan_init else st);
          nextIP = iadd hostIP (offset st0);
          st1 = st0\<lparr>offset := flip_offset (offset st0)\<rparr>
      in if nextIP \<le> 0 then (st1\<lparr>down := False\<rparr>, None)
         else if isub (shl1 hb) 1 \<le> nextIP then (st1\<lparr>up := False\<rparr>, None)
         else (st1, Some nextIP))"

subsection \<open>The draw of the probing loop\<close>

text \<open>
  \<^verbatim>\<open>rand.Intn(n)\<close> panics for \<open>n \<le> 0\<close> and returns a value of \<open>[0, n)\<close> otherwise. The
  random source is a parameter \<open>r\<close>, reduced into that range, so that every value of the
  range, and no other, can be drawn.
\<close>

definition Intn :: "int \<Rightarrow> int \<Rightarrow> int option" where
  "Intn n r = (if n \<le> 0 then None else Some (r mod n))"

text \<open>\<^verbatim>\<open>nextIP := rand.Intn(1<<uint(hostBits)-2) + 1\<close>\<close>

definition probe_draw :: "int \<Rightarrow> int \<Rightarrow> int option" where
  "probe_draw hb r = map_option (\<lambda>v. iadd v 1) (Intn (isub (shl1 hb) 2) r)"

section \<open>The seeders as processes\<close>

text \<open>The only error the seeders create: \<^verbatim>\<open>host address space too small: %v bits\<close>.\<close>

datatype error = AddressSpaceTooSmall int

text \<open>
  Both seeders hold the network they scan (their quit channel is part of the process
  model below, their logger has no effect on the addresses).
\<close>

record scanSeeder =
  scan_ipnet :: IPNet

record probeSeeder =
  probe_ipnet :: IPNet

text \<open>\<^verbatim>\<open>newScanSeeder\<close> and \<^verbatim>\<open>newProbeSeeder\<close> return the seeder and a nil error.\<close>

definition newScanSeeder :: "IPNet \<Rightarrow> scanSeeder \<times> error option" where
  "newScanSeeder ipnet = (\<lparr>scan_ipnet = ipnet\<rparr>, None)"

definition newProbeSeeder :: "IPNet \<Rightarrow> probeSeeder \<times> error option" where
  "newProbeSeeder ipnet = (\<lparr>probe_ipnet = ipnet\<rparr>, None)"

text \<open>
  Where the goroutine of \<^verbatim>\<open>run\<close> stands: just spawned; at the head of its loop with the
  loop's variables (\<^verbatim>\<open>err\<close> and \<^verbatim>\<open>errc\<close> are nil there); blocked in the \<^verbatim>\<open>select\<close>
  offering an address; past the loop and blocked in \<^verbatim>\<open>errc = <-s.quit\<close>, holding \<^verbatim>\<open>err\<close>;
  holding the reply channel and blocked in \<^verbatim>\<open>errc <- err\<close>; returned; or panicked.
\<close>

datatype 's run_pc =
    Spawned
  | AtLoop 's
  | AtSelect 's "byte list"
  | AwaitQuit "error option"
  | AtReply "error option"
  | Done
  | Panicked

text \<open>
  Where the caller of \<^verbatim>\<open>Close\<close> stands: not called; blocked in \<^verbatim>\<open>s.quit <- errc\<close>;
  blocked in \<^verbatim>\<open><-errc\<close>; returned with the value received.
\<close>

datatype close_pc = NotCalled | SendingQuit | AwaitingReply | Returned "error option"

text \<open>
  A configuration: the two control points, the addresses the consumer has received on the
  sink so far (oldest first), and the value behind the phase pointer.
\<close>

record 's config =
  run :: "'s run_pc"
  closer :: close_pc
  sink :: "byte list list"
  phase :: "32 word"

text \<open>
  What can happen next: the goroutine of \<^verbatim>\<open>run\<close> computes up to its next channel
  operation or loop head (the number is what the random source yields, if asked); the
  consumer receives on the sink; the consumer stores to the phase; \<^verbatim>\<open>Close\<close> is called;
  the send on \<^verbatim>\<open>s.quit\<close> meets its receive; the send on the reply channel meets its
  receive. The channels are unbuffered, so a send and its receive are one event.
\<close>

datatype action = Run int | SinkRecv | PhaseStore "32 word" | CloseCall | QuitSync | ReplySync

text \<open>
  \<^verbatim>\<open>scanSeeder.run\<close> between channel operations. Spawned: the host bits and \<^verbatim>\<open>hostIP\<close> are
  computed, then the size check is made. At the loop head: one iteration up to the
  \<^verbatim>\<open>select\<close>, or to \<^verbatim>\<open>continue\<close>.
\<close>

definition scanSeeder_run :: "scanSeeder \<Rightarrow> (int \<times> scan_state) run_pc \<Rightarrow> (int \<times> scan_state) run_pc option" where
  "scanSeeder_run s pc =
     (case pc of
        Spawned \<Rightarrow>
          (let hb = hostBits (scan_ipnet s)
           in case hostIP_of (scan_ipnet s) of
                None \<Rightarrow> Some Panicked
              | Some hostIP \<Rightarrow>
                  if hb < 2 then Some (AwaitQuit (Some (AddressSpaceTooSmall hb)))
                  else Some (AtLoop (hostIP, scan_init)))
      | AtLoop (hostIP, st) \<Rightarrow>
          (case scan_step hostIP (hostBits (scan_ipnet s)) st of
             (st', None) \<Rightarrow> Some (AtLoop (hostIP, st'))
           | (st', Some nextIP) \<Rightarrow> Some (AtSelect (hostIP, st') (mkHost (scan_ipnet s) nextIP)))
      | _ \<Rightarrow> None)"

text \<open>\<^verbatim>\<open>probeSeeder.run\<close> between channel operations; \<open>r\<close> is the random source.\<close>

definition probeSeeder_run :: "probeSeeder \<Rightarrow> int \<Rightarrow> unit run_pc \<Rightarrow> unit run_pc option" where
  "probeSeeder_run s r pc =
     (case pc of
        Spawned \<Rightarrow>
          (let hb = hostBits (probe_ipnet s)
           in if hb < 2 then Some (AwaitQuit (Some (AddressSpaceTooSmall hb)))
              else Some (AtLoop ()))
      | AtLoop u \<Rightarrow>
          (case probe_draw (hostBits (probe_ipnet s)) r of
             None \<Rightarrow> Some Panicked
           | Some nextIP \<Rightarrow> Some (AtSelect u (mkHost (probe_ipnet s) nextIP)))
      | _ \<Rightarrow> None)"

text \<open>
  One event of the system, \<open>None\<close> where the event cannot happen. The channel operations
  are written the same way in both seeders (the \<^verbatim>\<open>select\<close>, the receive on \<^verbatim>\<open>s.quit\<close>
  after the loop, the final send on the reply channel, and \<^verbatim>\<open>Close\<close>), so they are
  written once here, over the seeder's own computation \<open>body\<close>. A panic of the goroutine
  ends the program: nothing happens after it.
\<close>

definition sched :: "(int \<Rightarrow> 's run_pc \<Rightarrow> 's run_pc option) \<Rightarrow> action \<Rightarrow> 's config \<Rightarrow> 's config option" where
  "sched body a c =
     (if run c = Panicked then None
      else case a of
        Run r \<Rightarrow> map_option (\<lambda>pc. c\<lparr>run := pc\<rparr>) (body r (run c))
      | SinkRecv \<Rightarrow>
          (case run c of
             AtSelect st host \<Rightarrow> Some (c\<lparr>run := AtLoop st, sink := sink c @ [host]\<rparr>)
           | _ \<Rightarrow> None)
      | PhaseStore v \<Rightarrow> Some (c\<lparr>phase := v\<rparr>)
      | CloseCall \<Rightarrow>
          (if closer c = NotCalled then Some (c\<lparr>closer := SendingQuit\<rparr>) else None)
      | QuitSync \<Rightarrow>
          (if closer c = SendingQuit then
             (case run c of
                AtSelect st host \<Rightarrow> Some (c\<lparr>run := AtReply None, closer := AwaitingReply\<rparr>)
              | AwaitQuit e \<Rightarrow> Some (c\<lparr>run := AtReply e, closer := AwaitingReply\<rparr>)
              | _ \<Rightarrow> None)
           else None)
      | ReplySync \<Rightarrow>
          (case run c of
             AtReply e \<Rightarrow>
               (if closer c = AwaitingReply then Some (c\<lparr>run := Done, closer := Returned e\<rparr>)
                else None)
           | _ \<Rightarrow> None))"

fun exec :: "(int \<Rightarrow> 's run_pc \<Rightarrow> 's run_pc option) \<Rightarrow> action list \<Rightarrow> 's config \<Rightarrow> 's config option" where
  "exec body [] c = Some c"
| "exec body (a # as) c = (case sched body a c of None \<Rightarrow> None | Some c' \<Rightarrow> exec body as c')"

text \<open>
  \<^verbatim>\<open>Start\<close>: \<^verbatim>\<open>go s.run(sink, phase); return nil\<close>. The result is the configuration with
  the goroutine spawned, and the error returned.
\<close>

definition scanSeeder_Start :: "scanSeeder \<Rightarrow> 32 word \<Rightarrow> (int \<times> scan_state) config \<times> error option" where
  "scanSeeder_Start s ph = (\<lparr>run = Spawned, closer = NotCalled, sink = [], phase = ph\<rparr>, None)"

definition probeSeeder_Start :: "probeSeeder \<Rightarrow> 32 word \<Rightarrow> unit config \<times> error option" where
  "probeSeeder_Start s ph = (\<lparr>run = Spawned, closer = NotCalled, sink = [], phase = ph\<rparr>, None)"

text \<open>The executions of a started seeder under a schedule of events.\<close>

definition scan_exec :: "scanSeeder \<Rightarrow> 32 word \<Rightarrow> action list \<Rightarrow> (int \<times> scan_state) config option" where
  "scan_exec s ph acts = exec (\<lambda>r. scanSeeder_run s) acts (fst (scanSeeder_Start s ph))"

definition probe_exec :: "probeSeeder \<Rightarrow> 32 word \<Rightarrow> action list \<Rightarrow> unit config option" where
  "probe_exec s ph acts = exec (probeSeeder_run s) acts (fst (probeSeeder_Start s ph))"

section \<open>Reference notions\<close>

text \<open>The value of a byte sequence read as a big-endian integer.\<close>

definition be_int :: "byte list \<Rightarrow> int" where
  "be_int bs = foldl (\<lambda>acc b. acc * 256 + uint b) 0 bs"

text \<open>
  The host's own offset as the specification words it: the integer formed by the low
  \<open>hostBits\<close> bits of the configured base address.
\<close>

definition spec_ownHostOffset :: "IPNet \<Rightarrow> int" where
  "spec_ownHostOffset ipnet = be_int (IP ipnet) mod 2 ^ nat (hostBits ipnet)"

text \<open>The host part of an address of the network, read the same way.\<close>

definition hostPart :: "IPNet \<Rightarrow> byte list \<Rightarrow> int" where
  "hostPart ipnet addr = be_int addr mod 2 ^ nat (hostBits ipnet)"


section \<open>Example networks\<close>

text \<open>\<^verbatim>\<open>192.168.0.100/30\<close> and \<^verbatim>\<open>192.168.0.100/31\<close>, as in the tests.\<close>

definition ipv4_net30 :: IPNet where
  "ipv4_net30 = \<lparr>IP = [192, 168, 0, 100], Mask = [255, 255, 255, 252]\<rparr>"

definition ipv4_net31 :: IPNet where
  "ipv4_net31 = \<lparr>IP = [192, 168, 0, 100], Mask = [255, 255, 255, 254]\<rparr>"

text \<open>\<^verbatim>\<open>192.168.1.100/20\<close>: twelve host bits, the host part spans two bytes.\<close>

definition ipv4_net20 :: IPNet where
  "ipv4_net20 = \<lparr>IP = [192, 168, 1, 100], Mask = [255, 255, 240, 0]\<rparr>"

text \<open>\<^verbatim>\<open>fe80::1/64\<close>: an IPv6 network with 64 host bits.\<close>

definition ipv6_net64 :: IPNet where
  "ipv6_net64 = \<lparr>IP = [0xfe, 0x80, 0, 0, 0, 0, 0, 0, 0, 0, 0, 0, 0, 0, 0, 1],
                  Mask = [255, 255, 255, 255, 255, 255, 255, 255, 0, 0, 0, 0, 0, 0, 0, 0]\<rparr>"

text \<open>A 4-byte address paired with a 16-byte mask: the mask is longer than the address.\<close>

definition malformed_net :: IPNet where
  "malformed_net = \<lparr>IP = [192, 168, 0, 100],
                     Mask = [255, 255, 255, 255, 255, 255, 255, 255, 0, 0, 0, 0, 0, 0, 0, 0]\<rparr>"

section \<open>The scan in iterations and rounds\<close>

text \<open>
  The host segments offered in the first \<open>m\<close> iterations of the scanning loop from a loop
  state, in order, and the loop state after them.
\<close>

fun offered :: "int option \<Rightarrow> int list" where
  "offered None = []"
| "offered (Some n) = [n]"

fun scan_iter :: "int \<Rightarrow> int \<Rightarrow> nat \<Rightarrow> scan_state \<Rightarrow> int list \<times> scan_state" where
  "scan_iter hostIP hb 0 st = ([], st)"
| "scan_iter hostIP hb (Suc m) st =
     (case scan_iter hostIP hb m st of (os, st1) \<Rightarrow>
        (case scan_step hostIP hb st1 of (st2, nxt) \<Rightarrow> (os @ offered nxt, st2)))"

text \<open>
  The loop states of a scan in rounds, for the upper boundary \<open>lim = 2^hostBits - 1\<close>:
  before offset \<open>+k\<close> and before offset \<open>-k\<close>. The upward direction is enabled as long as
  \<open>hostIP + k\<close> has not reached \<open>lim\<close>, the downward one as long as \<open>hostIP - k\<close> has not
  reached 0.
\<close>

definition round_up :: "int \<Rightarrow> int \<Rightarrow> int \<Rightarrow> scan_state" where
  "round_up hostIP lim k = \<lparr>up = (k \<le> lim - hostIP), down = (k \<le> hostIP), offset = k\<rparr>"

definition round_down :: "int \<Rightarrow> int \<Rightarrow> int \<Rightarrow> scan_state" where
  "round_down hostIP lim k = \<lparr>up = (k < lim - hostIP), down = (k \<le> hostIP), offset = - k\<rparr>"

definition round_offers :: "int \<Rightarrow> int \<Rightarrow> int \<Rightarrow> int list" where
  "round_offers hostIP lim k =
     (if k < lim - hostIP then [hostIP + k] else []) @ (if k < hostIP then [hostIP - k] else [])"

fun rounds :: "int \<Rightarrow> int \<Rightarrow> nat \<Rightarrow> int list" where
  "rounds hostIP lim 0 = []"
| "rounds hostIP lim (Suc K) = rounds hostIP lim K @ round_offers hostIP lim (int K + 1)"

text \<open>One full cycle of the scan: the origin if it is a valid host, then the rounds.\<close>

definition cycle :: "int \<Rightarrow> int \<Rightarrow> int list" where
  "cycle hostIP lim =
     (if 0 < hostIP \<and> hostIP < lim then [hostIP] else []) @
     rounds hostIP lim (nat (max hostIP (lim - hostIP - 1)))"

section \<open>Invariants of the executions\<close>

text \<open>
  The value of \<^verbatim>\<open>err\<close> after the size check of \<^verbatim>\<open>run\<close>: the error for fewer than two
  host bits, nil otherwise.
\<close>

definition err_of :: "int \<Rightarrow> error option" where
  "err_of hb = (if hb < 2 then Some (AddressSpaceTooSmall hb) else None)"

text \<open>
  What the shutdown protocol needs of a seeder's own computation: it runs only when
  spawned or at the loop head; from the spawn it panics, leaves for the receive on the
  quit channel with the size error, or enters the loop with two host bits or more; from
  the loop head it panics, stays at the loop head or reaches the \<^verbatim>\<open>select\<close>.
\<close>

definition body_ok :: "int \<Rightarrow> (int \<Rightarrow> 's run_pc \<Rightarrow> 's run_pc option) \<Rightarrow> bool" where
  "body_ok hb body \<longleftrightarrow>
     (\<forall>r pc pc'. body r pc = Some pc' \<longrightarrow>
        (pc = Spawned \<and> (pc' = Panicked \<or> (pc' = AwaitQuit (err_of hb) \<and> hb < 2)
                          \<or> ((\<exists>x. pc' = AtLoop x) \<and> 2 \<le> hb)))
      \<or> ((\<exists>x. pc = AtLoop x) \<and> (pc' = Panicked \<or> (\<exists>y. pc' = AtLoop y) \<or> (\<exists>y h. pc' = AtSelect y h))))"

text \<open>
  The invariant of the shutdown protocol: how the control point of the goroutine and the
  one of \<^verbatim>\<open>Close\<close> go together.
\<close>

definition protocol_ok :: "int \<Rightarrow> 's config \<Rightarrow> bool" where
  "protocol_ok hb c \<longleftrightarrow>
     (hb < 2 \<longrightarrow> sink c = []) \<and>
     (case run c of
        Spawned \<Rightarrow> (closer c = NotCalled \<or> closer c = SendingQuit) \<and> sink c = []
      | AtLoop x \<Rightarrow> (closer c = NotCalled \<or> closer c = SendingQuit) \<and> 2 \<le> hb
      | AtSelect x h \<Rightarrow> (closer c = NotCalled \<or> closer c = SendingQuit) \<and> 2 \<le> hb
      | AwaitQuit e \<Rightarrow> (closer c = NotCalled \<or> closer c = SendingQuit) \<and> e = err_of hb \<and> hb < 2
      | AtReply e \<Rightarrow> closer c = AwaitingReply \<and> e = err_of hb
      | Done \<Rightarrow> closer c = Returned (err_of hb)
      | Panicked \<Rightarrow> (closer c = NotCalled \<or> closer c = SendingQuit))"

text \<open>The goroutine has received a reply channel on its quit channel.\<close>

definition quit_seen :: "'s config \<Rightarrow> bool" where
  "quit_seen c \<longleftrightarrow> (case closer c of AwaitingReply \<Rightarrow> True | Returned e \<Rightarrow> True | _ \<Rightarrow> False)"

text \<open>What an execution shows apart from the phase: control points and received addresses.\<close>

fun is_phase_store :: "action \<Rightarrow> bool" where
  "is_phase_store (PhaseStore v) = True"
| "is_phase_store a = False"

definition observable :: "'s config \<Rightarrow> 's run_pc \<times> close_pc \<times> byte list list" where
  "observable c = (run c, closer c, sink c)"

text \<open>
  Every address the consumer has received, and the one being offered in the \<^verbatim>\<open>select\<close>,
  satisfies \<open>V\<close>.
\<close>

definition offers_ok :: "(byte list \<Rightarrow> bool) \<Rightarrow> 's config \<Rightarrow> bool" where
  "offers_ok V c \<longleftrightarrow> list_all V (sink c) \<and> (case run c of AtSelect st a \<Rightarrow> V a | _ \<Rightarrow> True)"

text \<open>
  An address built from a host segment strictly between 0 and \<open>2^hostBits - 1\<close>.
\<close>

definition in_host_range :: "IPNet \<Rightarrow> byte list \<Rightarrow> bool" where
  "in_host_range ipnet a \<longleftrightarrow>
     (\<exists>h. 0 < h \<and> h < 2 ^ nat (hostBits ipnet) - 1 \<and> a = mkHost ipnet h)"

text \<open>
  How an execution of the scanning seeder follows the iterations of its loop: at the loop
  head the consumer has received the offers of the iterations made; in the \<^verbatim>\<open>select\<close> the
  last offer is pending; in all cases the received addresses are a prefix of the offers.
\<close>

definition scan_trace :: "IPNet \<Rightarrow> int \<Rightarrow> (int \<times> scan_state) config \<Rightarrow> bool" where
  "scan_trace ipnet H c \<longleftrightarrow>
     (\<exists>m rest. map (mkHost ipnet) (fst (scan_iter H (hostBits ipnet) m scan_init)) = sink c @ rest) \<and>
     (case run c of
        Spawned \<Rightarrow> sink c = []
      | AtLoop x \<Rightarrow> fst x = H \<and>
          (\<exists>m os. scan_iter H (hostBits ipnet) m scan_init = (os, snd x) \<and> sink c = map (mkHost ipnet) os)
      | AtSelect x a \<Rightarrow> fst x = H \<and>
          (\<exists>m os n. scan_iter H (hostBits ipnet) m scan_init = (os @ [n], snd x) \<and>
             sink c = map (mkHost ipnet) os \<and> a = mkHost ipnet n)
      | _ \<Rightarrow> True)"

text \<open>
  The configurations in which no address has been offered yet: nothing was received, no
  close request was taken, and the goroutine is before its first \<^verbatim>\<open>select\<close>.
\<close>

definition pre_select :: "'s config \<Rightarrow> bool" where
  "pre_select c \<longleftrightarrow> sink c = [] \<and> (closer c = NotCalled \<or> closer c = SendingQuit)
     \<and> (run c = Spawned \<or> (\<exists>x. run c = AtLoop x) \<or> run c = Panicked)"

section \<open>Example executions\<close>

text \<open>
  Two executions on \<^verbatim>\<open>192.168.0.100/30\<close>: an address is received, then \<^verbatim>\<open>Close\<close> is called
  and returns.
\<close>

definition closed_scan30 :: "(int \<times> scan_state) config" where
  "closed_scan30 = \<lparr>run = Done, closer = Returned None, sink = [[192, 168, 0, 101]], phase = 0\<rparr>"

definition closed_probe30 :: "unit config" where
  "closed_probe30 = \<lparr>run = Done, closer = Returned None, sink = [[192, 168, 0, 102]], phase = 0\<rparr>"

definition sched_scan30 :: "action list" where
  "sched_scan30 = [Run 0, Run 0, Run 0, SinkRecv, Run 0, Run 0, CloseCall, QuitSync, ReplySync]"

definition sched_probe30 :: "action list" where
  "sched_probe30 = [Run 0, Run 5, SinkRecv, Run 0, CloseCall, QuitSync, ReplySync]"

definition sched_scan30_phase :: "action list" where
  "sched_scan30_phase = [PhaseStore 3, Run 0, Run 0, Run 0, SinkRecv, PhaseStore 4, Run 0, Run 0,
     CloseCall, QuitSync, ReplySync, PhaseStore 9]"

definition sched_probe30_phase :: "action list" where
  "sched_probe30_phase = [Run 0, PhaseStore 1, Run 5, SinkRecv, Run 0, CloseCall, QuitSync, PhaseStore 9, ReplySync]"

definition sched_close31 :: "action list" where
  "sched_close31 = [Run 0, CloseCall, QuitSync, ReplySync]"

text \<open>
  An execution on \<^verbatim>\<open>192.168.0.100/30\<close> in which the consumer receives four addresses: the
  two hosts of the network, twice.
\<close>

definition sched_two_cycles30 :: "action list" where
  "sched_two_cycles30 =
     [Run 0, Run 0, Run 0, SinkRecv, Run 0, Run 0, SinkRecv, Run 0, Run 0,
      Run 0, Run 0, SinkRecv, Run 0, Run 0, SinkRecv]"

definition after_two_cycles30 :: "(int \<times> scan_state) config" where
  "after_two_cycles30 =
     \<lparr>run = AtLoop (0, \<lparr>up = True, down = False, offset = - 2\<rparr>), closer = NotCalled,
      sink = [[192, 168, 0, 101], [192, 168, 0, 102], [192, 168, 0, 101], [192, 168, 0, 102]],
      phase = 0\<rparr>"

section \<open>Properties\<close>

subsection \<open>Wrapped arithmetic\<close>

lemma wrap64_id: "- (2 ^ 63) \<le> x \<Longrightarrow> x < 2 ^ 63 \<Longrightarrow> wrap64 x = x"
  by (simp add: wrap64_def)


lemma pow2_le_62: assumes "0 \<le> hb" "hb \<le> 62" shows "(2 :: int) ^ nat hb \<le> 2 ^ 62"
  using assms by (intro power_increasing) simp_all

lemma pow2_le_63: assumes "0 \<le> hb" "hb \<le> 63" shows "(2 :: int) ^ nat hb \<le> 2 ^ 63"
  using assms by (intro power_increasing) simp_all


lemma pow2_ge4: assumes "2 \<le> hb" shows "(4 :: int) \<le> 2 ^ nat hb"
proof -
  have "(2 :: int) ^ 2 \<le> 2 ^ nat hb" using assms by (intro power_increasing) simp_all
  then show ?thesis by simp
qed

lemma wrap64_small:
  assumes "0 < p" "p \<le> 2 ^ 62"
  shows "wrap64 p = p" "wrap64 (p - 1) = p - 1" "wrap64 (p - 2) = p - 2"
  using assms by (simp_all add: wrap64_def)

lemma shl1_ge64: assumes "64 \<le> hb" shows "shl1 hb = 0"
proof -
  have "64 \<le> nat hb" using assms by simp
  then have "(2 :: int) ^ 64 dvd 2 ^ nat hb" by (rule le_imp_power_dvd)
  then have "((2 :: int) ^ nat hb + 2 ^ 63) mod 2 ^ 64 = 2 ^ 63 mod 2 ^ 64"
    by (metis mod_add_self1 dvd_def mod_mult_self4 add.commute)
  then show ?thesis by (simp add: shl1_def wrap64_def)
qed

lemma shl1_small: assumes "0 \<le> hb" "hb \<le> 62" shows "shl1 hb = 2 ^ nat hb"
proof -
  have "(2 :: int) ^ nat hb \<le> 2 ^ 62" using assms by (rule pow2_le_62)
  moreover have "(0 :: int) < 2 ^ nat hb" by simp
  ultimately show ?thesis unfolding shl1_def by (rule wrap64_small(1)[rotated])
qed

lemma shl1_63: "shl1 63 = - (2 ^ 63)"
  by (simp add: shl1_def wrap64_def)

lemma shl1_low: assumes "j < 8" shows "shl1 (int j) = 2 ^ j"
  using shl1_small[of "int j"] assms by simp

lemma bound_ge64: "64 \<le> hb \<Longrightarrow> isub (shl1 hb) 1 = - 1"
  by (simp add: shl1_ge64 isub_def wrap64_def)

lemma draw_arg_ge64: "64 \<le> hb \<Longrightarrow> isub (shl1 hb) 2 = - 2"
  by (simp add: shl1_ge64 isub_def wrap64_def)

lemma bound_valid: assumes "2 \<le> hb" "hb \<le> 63" shows "isub (shl1 hb) 1 = 2 ^ nat hb - 1"
proof (cases "hb = 63")
  case True
  then show ?thesis by (simp add: shl1_63 isub_def wrap64_def)
next
  case False
  then have le: "hb \<le> 62" using assms by simp
  have s: "shl1 hb = 2 ^ nat hb" using assms le by (intro shl1_small) simp_all
  have "(2 :: int) ^ nat hb \<le> 2 ^ 62" using assms le by (intro pow2_le_62) simp_all
  moreover have "(0 :: int) < 2 ^ nat hb" by simp
  ultimately show ?thesis unfolding isub_def s by (rule wrap64_small(2)[rotated])
qed

lemma draw_arg_valid: assumes "2 \<le> hb" "hb \<le> 63" shows "isub (shl1 hb) 2 = 2 ^ nat hb - 2"
proof (cases "hb = 63")
  case True
  then show ?thesis by (simp add: shl1_63 isub_def wrap64_def)
next
  case False
  then have le: "hb \<le> 62" using assms by simp
  have s: "shl1 hb = 2 ^ nat hb" using assms le by (intro shl1_small) simp_all
  have "(2 :: int) ^ nat hb \<le> 2 ^ 62" using assms le by (intro pow2_le_62) simp_all
  moreover have "(0 :: int) < 2 ^ nat hb" by simp
  ultimately show ?thesis unfolding isub_def s by (rule wrap64_small(3)[rotated])
qed


subsection \<open>Executions under a schedule\<close>

lemma exec_invariant:
  assumes "exec body acts c = Some c'" and "P c"
    and "\<And>a x y. P x \<Longrightarrow> sched body a x = Some y \<Longrightarrow> P y"
  shows "P c'"
  using assms(1,2)
proof (induction acts arbitrary: c)
  case Nil
  then show ?case by simp
next
  case (Cons a as)
  then obtain d where d: "sched body a c = Some d" and e: "exec body as d = Some c'"
    by (auto split: option.splits)
  from assms(3)[OF Cons.prems(2) d] have "P d" .
  from Cons.IH[OF e this] show ?case .
qed

lemma exec_append:
  "exec body (xs @ ys) c = (case exec body xs c of None \<Rightarrow> None | Some d \<Rightarrow> exec body ys d)"
  by (induction xs arbitrary: c) (auto split: option.splits)

lemma exec_snoc:
  assumes "exec body xs c = Some d" "sched body a d = Some e"
  shows "exec body (xs @ [a]) c = Some e"
  using assms by (simp add: exec_append)

lemma exec_then:
  assumes "exec body xs c = Some d" "exec body ys d = Some e"
  shows "exec body (xs @ ys) c = Some e"
  using assms by (simp add: exec_append)

subsection \<open>The example networks\<close>

lemma hostBits_ipv6_net64: "hostBits ipv6_net64 = 64"
  by code_simp

lemma hostBits_ipv4_net20: "hostBits ipv4_net20 = 12"
  by code_simp

lemma hostBits_ipv4_net30: "hostBits ipv4_net30 = 2"
  by code_simp

lemma hostBits_ipv4_net31: "hostBits ipv4_net31 = 1"
  by code_simp

lemma hostBits_malformed_net: "hostBits malformed_net = 64"
  by code_simp

lemma hostIP_ipv4_net20: "hostIP_of ipv4_net20 = Some 101"
  by code_simp

lemma hostIP_ipv6_net64: "hostIP_of ipv6_net64 = Some 1"
  by code_simp

lemma spec_ownHostOffset_ipv4_net20: "spec_ownHostOffset ipv4_net20 = 356"
  by code_simp

lemma hostIP_malformed_net: "hostIP_of malformed_net = None"
  by code_simp

lemma scan_exec_sched_scan30:
  "scan_exec \<lparr>scan_ipnet = ipv4_net30\<rparr> 0 sched_scan30 = Some closed_scan30"
  by code_simp

lemma probe_exec_sched_probe30:
  "probe_exec \<lparr>probe_ipnet = ipv4_net30\<rparr> 0 sched_probe30 = Some closed_probe30"
  by code_simp

subsection \<open>Construction\<close>

text \<open>
  Claim C7, as the code has it: constructing a seeder checks nothing. For every pairing of
  address and mask, malformed ones included, both constructors return the seeder holding
  that network, with a nil error.
\<close>

theorem construction_never_fails:
  "newScanSeeder ipnet = (\<lparr>scan_ipnet = ipnet\<rparr>, None) \<and>
   newProbeSeeder ipnet = (\<lparr>probe_ipnet = ipnet\<rparr>, None)"
  by (simp add: newScanSeeder_def newProbeSeeder_def)

theorem construction_never_fails_witness:
  "newScanSeeder ipv4_net31 = (\<lparr>scan_ipnet = ipv4_net31\<rparr>, None) \<and>
   newProbeSeeder ipv4_net31 = (\<lparr>probe_ipnet = ipv4_net31\<rparr>, None)"
  by (rule construction_never_fails)

text \<open>
  The claim as stated fails for a 4-byte address with a 16-byte mask: the mask has more
  bits than the address, and both constructors return a nil error. The pairing shows
  only when the goroutine of the scanning seeder runs: its index goes out of range.
\<close>

theorem construction_malformed_counterexample:
  "8 * length (IP malformed_net) < 8 * length (Mask malformed_net) \<and>
   snd (newScanSeeder malformed_net) = None \<and>
   snd (newProbeSeeder malformed_net) = None \<and>
   scan_exec (fst (newScanSeeder malformed_net)) 0 [Run 0]
     = Some \<lparr>run = Panicked, closer = NotCalled, sink = [], phase = 0\<rparr>"
proof -
  have "scan_exec (fst (newScanSeeder malformed_net)) 0 [Run 0]
     = Some \<lparr>run = Panicked, closer = NotCalled, sink = [], phase = 0\<rparr>"
    by code_simp
  then show ?thesis by (simp add: newScanSeeder_def newProbeSeeder_def malformed_net_def)
qed

subsection \<open>The shutdown protocol\<close>

lemma scan_body_ok: "body_ok (hostBits (scan_ipnet s)) (\<lambda>r. scanSeeder_run s)"
  unfolding body_ok_def scanSeeder_run_def Let_def err_of_def
  by (auto split: run_pc.splits option.splits prod.splits if_splits)

lemma probe_body_ok: "body_ok (hostBits (probe_ipnet s)) (probeSeeder_run s)"
  unfolding body_ok_def probeSeeder_run_def Let_def err_of_def
  by (auto split: run_pc.splits option.splits prod.splits if_splits)

lemma protocol_ok_step:
  assumes b: "body_ok hb body" and p: "protocol_ok hb x" and s: "sched body a x = Some y"
  shows "protocol_ok hb y"
proof (cases a)
  case (Run r)
  with s obtain pc' where pc': "body r (run x) = Some pc'" and y: "y = x\<lparr>run := pc'\<rparr>"
    by (auto simp: sched_def split: if_splits)
  from b pc' have
    "(run x = Spawned \<and> (pc' = Panicked \<or> (pc' = AwaitQuit (err_of hb) \<and> hb < 2)
                          \<or> ((\<exists>x. pc' = AtLoop x) \<and> 2 \<le> hb)))
      \<or> ((\<exists>z. run x = AtLoop z) \<and> (pc' = Panicked \<or> (\<exists>y. pc' = AtLoop y) \<or> (\<exists>y h. pc' = AtSelect y h)))"
    unfolding body_ok_def by blast
  with p show ?thesis unfolding y protocol_ok_def by auto
next
  case SinkRecv
  with s p show ?thesis by (auto simp: sched_def protocol_ok_def split: if_splits run_pc.splits)
next
  case (PhaseStore v)
  with s p show ?thesis by (auto simp: sched_def protocol_ok_def split: if_splits run_pc.splits)
next
  case CloseCall
  with s p show ?thesis by (auto simp: sched_def protocol_ok_def split: if_splits run_pc.splits)
next
  case QuitSync
  with s p show ?thesis
    by (auto simp: sched_def protocol_ok_def err_of_def split: if_splits run_pc.splits)
next
  case ReplySync
  with s p show ?thesis by (auto simp: sched_def protocol_ok_def split: if_splits run_pc.splits)
qed

lemma protocol_ok_Start:
  "protocol_ok hb (fst (scanSeeder_Start s ph))" "protocol_ok hb (fst (probeSeeder_Start s' ph))"
  by (simp_all add: protocol_ok_def scanSeeder_Start_def probeSeeder_Start_def)

lemma scan_protocol_ok:
  assumes "scan_exec s ph acts = Some c"
  shows "protocol_ok (hostBits (scan_ipnet s)) c"
  using assms unfolding scan_exec_def
  by (rule exec_invariant) (rule protocol_ok_Start, rule protocol_ok_step[OF scan_body_ok])

lemma probe_protocol_ok:
  assumes "probe_exec s ph acts = Some c"
  shows "protocol_ok (hostBits (probe_ipnet s)) c"
  using assms unfolding probe_exec_def
  by (rule exec_invariant) (rule protocol_ok_Start, rule protocol_ok_step[OF probe_body_ok])

lemma after_quit_step:
  assumes b: "body_ok hb body" and p: "protocol_ok hb x" and q: "quit_seen x"
    and s: "sched body a x = Some y"
  shows "quit_seen y \<and> sink y = sink x"
proof -
  from p q have r: "(\<exists>e. run x = AtReply e) \<or> run x = Done"
    by (auto simp: protocol_ok_def quit_seen_def split: run_pc.splits close_pc.splits)
  show ?thesis
  proof (cases a)
    case (Run v)
    with s obtain pc' where pc': "body v (run x) = Some pc'"
      by (auto simp: sched_def split: if_splits)
    with b have "run x = Spawned \<or> (\<exists>z. run x = AtLoop z)" unfolding body_ok_def by blast
    with r show ?thesis by auto
  qed (use s q r in \<open>auto simp: sched_def quit_seen_def split: if_splits run_pc.splits close_pc.splits\<close>)
qed

lemma after_quit_exec:
  assumes b: "body_ok hb body" and p: "protocol_ok hb c" and q: "quit_seen c"
    and e: "exec body acts c = Some c'"
  shows "sink c' = sink c"
proof -
  have "protocol_ok hb c' \<and> quit_seen c' \<and> sink c' = sink c"
    using e
  proof (rule exec_invariant)
    show "protocol_ok hb c \<and> quit_seen c \<and> sink c = sink c" using p q by simp
  next
    fix a x y
    assume h: "protocol_ok hb x \<and> quit_seen x \<and> sink x = sink c" and s: "sched body a x = Some y"
    from protocol_ok_step[OF b _ s] h have "protocol_ok hb y" by simp
    moreover from after_quit_step[OF b _ _ s] h have "quit_seen y \<and> sink y = sink x" by simp
    ultimately show "protocol_ok hb y \<and> quit_seen y \<and> sink y = sink c" using h by simp
  qed
  then show ?thesis by simp
qed

text \<open>
  Claim C6. In every execution of either seeder: once the goroutine has received the reply
  channel on its quit channel, no later event changes what the consumer has received on
  the sink; and when \<^verbatim>\<open>Close\<close> has returned a value, the goroutine has made its final send
  and returned, and the value is its terminal outcome (the size error, or nil).
\<close>

theorem shutdown_protocol:
  "(scan_exec s ph acts = Some c \<longrightarrow>
      (quit_seen c \<longrightarrow> (\<forall>more c'. exec (\<lambda>r. scanSeeder_run s) more c = Some c' \<longrightarrow> sink c' = sink c)) \<and>
      (\<forall>e. closer c = Returned e \<longrightarrow> run c = Done \<and> e = err_of (hostBits (scan_ipnet s)))) \<and>
   (probe_exec p ph' acts' = Some d \<longrightarrow>
      (quit_seen d \<longrightarrow> (\<forall>more d'. exec (probeSeeder_run p) more d = Some d' \<longrightarrow> sink d' = sink d)) \<and>
      (\<forall>e. closer d = Returned e \<longrightarrow> run d = Done \<and> e = err_of (hostBits (probe_ipnet p))))"
proof (intro conjI impI allI)
  assume e: "scan_exec s ph acts = Some c"
  note ok = scan_protocol_ok[OF e]
  { fix more c'
    assume "quit_seen c" "exec (\<lambda>r. scanSeeder_run s) more c = Some c'"
    then show "sink c' = sink c" using after_quit_exec[OF scan_body_ok ok] by blast }
  { fix e assume "closer c = Returned e"
    with ok show "run c = Done" "e = err_of (hostBits (scan_ipnet s))"
      by (auto simp: protocol_ok_def split: run_pc.splits) }
next
  assume e: "probe_exec p ph' acts' = Some d"
  note ok = probe_protocol_ok[OF e]
  { fix more d'
    assume "quit_seen d" "exec (probeSeeder_run p) more d = Some d'"
    then show "sink d' = sink d" using after_quit_exec[OF probe_body_ok ok] by blast }
  { fix e assume "closer d = Returned e"
    with ok show "run d = Done" "e = err_of (hostBits (probe_ipnet p))"
      by (auto simp: protocol_ok_def split: run_pc.splits) }
qed

theorem shutdown_protocol_witness:
  "scan_exec \<lparr>scan_ipnet = ipv4_net30\<rparr> 0 sched_scan30 = Some closed_scan30 \<and>
   quit_seen closed_scan30 \<and>
   exec (\<lambda>r. scanSeeder_run \<lparr>scan_ipnet = ipv4_net30\<rparr>) [PhaseStore 7] closed_scan30
     = Some (closed_scan30\<lparr>phase := 7\<rparr>) \<and>
   sink (closed_scan30\<lparr>phase := 7\<rparr>) = sink closed_scan30 \<and>
   closer closed_scan30 = Returned None \<and> run closed_scan30 = Done \<and>
   None = err_of (hostBits ipv4_net30) \<and>
   probe_exec \<lparr>probe_ipnet = ipv4_net30\<rparr> 0 sched_probe30 = Some closed_probe30 \<and>
   quit_seen closed_probe30 \<and>
   exec (probeSeeder_run \<lparr>probe_ipnet = ipv4_net30\<rparr>) [PhaseStore 7] closed_probe30
     = Some (closed_probe30\<lparr>phase := 7\<rparr>) \<and>
   sink (closed_probe30\<lparr>phase := 7\<rparr>) = sink closed_probe30 \<and>
   closer closed_probe30 = Returned None \<and> run closed_probe30 = Done"
proof -
  have q: "quit_seen closed_scan30" "quit_seen closed_probe30"
    by (simp_all add: quit_seen_def closed_scan30_def closed_probe30_def)
  have x: "exec (\<lambda>r. scanSeeder_run \<lparr>scan_ipnet = ipv4_net30\<rparr>) [PhaseStore 7] closed_scan30
     = Some (closed_scan30\<lparr>phase := 7\<rparr>)"
    "exec (probeSeeder_run \<lparr>probe_ipnet = ipv4_net30\<rparr>) [PhaseStore 7] closed_probe30
     = Some (closed_probe30\<lparr>phase := 7\<rparr>)"
    by (simp_all add: sched_def closed_scan30_def closed_probe30_def)
  have r: "closer closed_scan30 = Returned None" "closer closed_probe30 = Returned None"
    by (simp_all add: closed_scan30_def closed_probe30_def)
  note t = shutdown_protocol[of "\<lparr>scan_ipnet = ipv4_net30\<rparr>" 0 sched_scan30 closed_scan30
      "\<lparr>probe_ipnet = ipv4_net30\<rparr>" 0 sched_probe30 closed_probe30]
  from t scan_exec_sched_scan30 q(1) x(1) have 1: "sink (closed_scan30\<lparr>phase := 7\<rparr>) = sink closed_scan30"
    by blast
  from t scan_exec_sched_scan30 r(1) have 2: "run closed_scan30 = Done \<and> None = err_of (hostBits (scan_ipnet \<lparr>scan_ipnet = ipv4_net30\<rparr>))"
    by blast
  from t probe_exec_sched_probe30 q(2) x(2) have 3: "sink (closed_probe30\<lparr>phase := 7\<rparr>) = sink closed_probe30"
    by blast
  from t probe_exec_sched_probe30 r(2) have 4: "run closed_probe30 = Done"
    by blast
  from 1 2 3 4 q x r scan_exec_sched_scan30 probe_exec_sched_probe30 show ?thesis by simp
qed

text \<open>
  Claim C9. \<^verbatim>\<open>Start\<close> returns nil for the seeder of every network, valid or not: it only
  spawns the goroutine. Where the network has fewer than two host bits, the size error is
  what a later \<^verbatim>\<open>Close\<close> returns.
\<close>

theorem Start_returns_nil:
  "snd (scanSeeder_Start (fst (newScanSeeder ipnet)) ph) = None \<and>
   snd (probeSeeder_Start (fst (newProbeSeeder ipnet)) ph) = None \<and>
   run (fst (scanSeeder_Start (fst (newScanSeeder ipnet)) ph)) = Spawned \<and>
   run (fst (probeSeeder_Start (fst (newProbeSeeder ipnet)) ph)) = Spawned \<and>
   (hostBits ipnet < 2 \<longrightarrow>
      (\<forall>acts c e. scan_exec (fst (newScanSeeder ipnet)) ph acts = Some c \<longrightarrow> closer c = Returned e \<longrightarrow>
         e = Some (AddressSpaceTooSmall (hostBits ipnet))) \<and>
      (\<forall>acts c e. probe_exec (fst (newProbeSeeder ipnet)) ph acts = Some c \<longrightarrow> closer c = Returned e \<longrightarrow>
         e = Some (AddressSpaceTooSmall (hostBits ipnet))))"
proof -
  have 1: "e = Some (AddressSpaceTooSmall (hostBits ipnet))"
    if "hostBits ipnet < 2" "scan_exec (fst (newScanSeeder ipnet)) ph acts = Some c" "closer c = Returned e"
    for acts c e
    using scan_protocol_ok[OF that(2)] that(1,3)
    by (auto simp: protocol_ok_def newScanSeeder_def err_of_def split: run_pc.splits)
  have 2: "e = Some (AddressSpaceTooSmall (hostBits ipnet))"
    if "hostBits ipnet < 2" "probe_exec (fst (newProbeSeeder ipnet)) ph acts = Some c" "closer c = Returned e"
    for acts c e
    using probe_protocol_ok[OF that(2)] that(1,3)
    by (auto simp: protocol_ok_def newProbeSeeder_def err_of_def split: run_pc.splits)
  show ?thesis using 1 2 by (simp add: scanSeeder_Start_def probeSeeder_Start_def)
qed

theorem Start_returns_nil_witness:
  "snd (scanSeeder_Start (fst (newScanSeeder ipv4_net31)) 0) = None \<and>
   snd (probeSeeder_Start (fst (newProbeSeeder ipv4_net31)) 0) = None \<and>
   hostBits ipv4_net31 < 2 \<and>
   scan_exec (fst (newScanSeeder ipv4_net31)) 0 sched_close31
     = Some \<lparr>run = Done, closer = Returned (Some (AddressSpaceTooSmall 1)), sink = [], phase = 0\<rparr> \<and>
   probe_exec (fst (newProbeSeeder ipv4_net31)) 0 sched_close31
     = Some \<lparr>run = Done, closer = Returned (Some (AddressSpaceTooSmall 1)), sink = [], phase = 0\<rparr> \<and>
   Some (AddressSpaceTooSmall 1) = Some (AddressSpaceTooSmall (hostBits ipv4_net31))"
proof -
  have h: "hostBits ipv4_net31 < 2" by (simp add: hostBits_ipv4_net31)
  have e: "scan_exec (fst (newScanSeeder ipv4_net31)) 0 sched_close31
     = Some \<lparr>run = Done, closer = Returned (Some (AddressSpaceTooSmall 1)), sink = [], phase = 0\<rparr>"
   "probe_exec (fst (newProbeSeeder ipv4_net31)) 0 sched_close31
     = Some \<lparr>run = Done, closer = Returned (Some (AddressSpaceTooSmall 1)), sink = [], phase = 0\<rparr>"
    by code_simp+
  note t = Start_returns_nil[of ipv4_net31 0]
  have r: "closer \<lparr>run = Done :: (int \<times> scan_state) run_pc, closer = Returned (Some (AddressSpaceTooSmall 1)), sink = [], phase = 0\<rparr>
      = Returned (Some (AddressSpaceTooSmall 1))" by simp
  from t[THEN conjunct2, THEN conjunct2, THEN conjunct2, THEN conjunct2, rule_format, OF h, THEN conjunct1, rule_format, OF e(1) r]
  have "Some (AddressSpaceTooSmall 1) = Some (AddressSpaceTooSmall (hostBits ipv4_net31))" .
  moreover have "snd (scanSeeder_Start (fst (newScanSeeder ipv4_net31)) 0) = None"
    "snd (probeSeeder_Start (fst (newProbeSeeder ipv4_net31)) 0) = None"
    using t by blast+
  ultimately show ?thesis using h e by (intro conjI)
qed

subsection \<open>The phase\<close>

lemma sched_phase_store:
  assumes "sched body (PhaseStore v) x = Some y" shows "observable y = observable x"
  using assms by (auto simp: sched_def observable_def split: if_splits)

lemma sched_observable:
  assumes "observable x = observable x'" "\<not> is_phase_store a"
  shows "map_option observable (sched body a x) = map_option observable (sched body a x')"
  using assms
  by (cases a)
     (auto simp: sched_def observable_def option.map_comp comp_def
           split: if_splits run_pc.splits option.splits)

lemma exec_observable:
  assumes "observable x = observable x'"
    and "filter (\<lambda>a. \<not> is_phase_store a) acts = filter (\<lambda>a. \<not> is_phase_store a) acts'"
    and "exec body acts x = Some y" "exec body acts' x' = Some y'"
  shows "observable y = observable y'"
  using assms
proof (induction "length acts + length acts'" arbitrary: acts acts' x x' rule: less_induct)
  case less
  show ?case
  proof (cases acts)
    case Nil
    note a = Nil
    show ?thesis
    proof (cases acts')
      case Nil
      with a less.prems show ?thesis by simp
    next
      case (Cons b bs)
      with a less.prems(2) have ps: "is_phase_store b" by (auto split: if_splits)
      then obtain v where b: "b = PhaseStore v" by (cases b) auto
      from less.prems(4) Cons obtain z where z: "sched body b x' = Some z" "exec body bs z = Some y'"
        by (auto split: option.splits)
      have "observable z = observable x'" using z(1) b sched_phase_store by blast
      then have o: "observable x = observable z" using less.prems(1) by simp
      have f: "filter (\<lambda>a. \<not> is_phase_store a) acts = filter (\<lambda>a. \<not> is_phase_store a) bs"
        using less.prems(2) Cons ps by simp
      show ?thesis
        by (rule less.hyps[OF _ o f less.prems(3) z(2)]) (simp add: Cons)
    qed
  next
    case (Cons a as)
    from less.prems(3) Cons obtain w where w: "sched body a x = Some w" "exec body as w = Some y"
      by (auto split: option.splits)
    show ?thesis
    proof (cases "is_phase_store a")
      case True
      then obtain v where a: "a = PhaseStore v" by (cases a) auto
      have "observable w = observable x" using w(1) a sched_phase_store by blast
      then have o: "observable w = observable x'" using less.prems(1) by simp
      have f: "filter (\<lambda>a. \<not> is_phase_store a) as = filter (\<lambda>a. \<not> is_phase_store a) acts'"
        using less.prems(2) Cons True by simp
      show ?thesis
        by (rule less.hyps[OF _ o f w(2) less.prems(4)]) (simp add: Cons)
    next
      case False
      note na = False
      show ?thesis
      proof (cases acts')
        case Nil
        with less.prems(2) Cons na show ?thesis by simp
      next
        case (Cons b bs)
        note bc = Cons
        from less.prems(4) Cons obtain z where z: "sched body b x' = Some z" "exec body bs z = Some y'"
          by (auto split: option.splits)
        show ?thesis
        proof (cases "is_phase_store b")
          case True
          then obtain v where b: "b = PhaseStore v" by (cases b) auto
          have "observable z = observable x'" using z(1) b sched_phase_store by blast
          then have o: "observable x = observable z" using less.prems(1) by simp
          have f: "filter (\<lambda>a. \<not> is_phase_store a) acts = filter (\<lambda>a. \<not> is_phase_store a) bs"
            using less.prems(2) bc True by simp
          show ?thesis
            by (rule less.hyps[OF _ o f less.prems(3) z(2)]) (simp add: bc)
        next
          case False
          with less.prems(2) \<open>acts = a # as\<close> bc na have ab: "a = b"
            and f: "filter (\<lambda>a. \<not> is_phase_store a) as = filter (\<lambda>a. \<not> is_phase_store a) bs"
            by simp_all
          from sched_observable[OF less.prems(1) na, of body] w(1) z(1) ab
          have o: "observable w = observable z" by simp
          show ?thesis
            by (rule less.hyps[OF _ o f w(2) z(2)]) (simp add: bc \<open>acts = a # as\<close>)
        qed
      qed
    qed
  qed
qed

text \<open>
  Claim C8. Two executions of the same seeder that differ only in the phase (the value it
  starts with and the stores the consumer makes to it) and agree on every other event,
  random draws included, show the same control points and the same addresses on the sink.
\<close>

theorem phase_independence:
  "(filter (\<lambda>a. \<not> is_phase_store a) acts = filter (\<lambda>a. \<not> is_phase_store a) acts' \<longrightarrow>
    scan_exec s ph acts = Some c \<longrightarrow> scan_exec s ph' acts' = Some c' \<longrightarrow>
      sink c = sink c' \<and> run c = run c' \<and> closer c = closer c') \<and>
   (filter (\<lambda>a. \<not> is_phase_store a) bcts = filter (\<lambda>a. \<not> is_phase_store a) bcts' \<longrightarrow>
    probe_exec p qh bcts = Some d \<longrightarrow> probe_exec p qh' bcts' = Some d' \<longrightarrow>
      sink d = sink d' \<and> run d = run d' \<and> closer d = closer d')"
proof (intro conjI impI)
  assume f: "filter (\<lambda>a. \<not> is_phase_store a) acts = filter (\<lambda>a. \<not> is_phase_store a) acts'"
    and e: "scan_exec s ph acts = Some c" "scan_exec s ph' acts' = Some c'"
  have o: "observable (fst (scanSeeder_Start s ph)) = observable (fst (scanSeeder_Start s ph'))"
    by (simp add: observable_def scanSeeder_Start_def)
  from exec_observable[OF o f e[unfolded scan_exec_def]]
  show "sink c = sink c'" "run c = run c'" "closer c = closer c'"
    by (simp_all add: observable_def)
next
  assume f: "filter (\<lambda>a. \<not> is_phase_store a) bcts = filter (\<lambda>a. \<not> is_phase_store a) bcts'"
    and e: "probe_exec p qh bcts = Some d" "probe_exec p qh' bcts' = Some d'"
  have o: "observable (fst (probeSeeder_Start p qh)) = observable (fst (probeSeeder_Start p qh'))"
    by (simp add: observable_def probeSeeder_Start_def)
  from exec_observable[OF o f e[unfolded probe_exec_def]]
  show "sink d = sink d'" "run d = run d'" "closer d = closer d'"
    by (simp_all add: observable_def)
qed

theorem phase_independence_witness:
  "filter (\<lambda>a. \<not> is_phase_store a) sched_scan30 = filter (\<lambda>a. \<not> is_phase_store a) sched_scan30_phase \<and>
   scan_exec \<lparr>scan_ipnet = ipv4_net30\<rparr> 0 sched_scan30 = Some closed_scan30 \<and>
   scan_exec \<lparr>scan_ipnet = ipv4_net30\<rparr> 5 sched_scan30_phase = Some (closed_scan30\<lparr>phase := 9\<rparr>) \<and>
   sink closed_scan30 = sink (closed_scan30\<lparr>phase := 9\<rparr>) \<and>
   filter (\<lambda>a. \<not> is_phase_store a) sched_probe30 = filter (\<lambda>a. \<not> is_phase_store a) sched_probe30_phase \<and>
   probe_exec \<lparr>probe_ipnet = ipv4_net30\<rparr> 0 sched_probe30 = Some closed_probe30 \<and>
   probe_exec \<lparr>probe_ipnet = ipv4_net30\<rparr> 5 sched_probe30_phase = Some (closed_probe30\<lparr>phase := 9\<rparr>) \<and>
   sink closed_probe30 = sink (closed_probe30\<lparr>phase := 9\<rparr>)"
proof -
  have f: "filter (\<lambda>a. \<not> is_phase_store a) sched_scan30 = filter (\<lambda>a. \<not> is_phase_store a) sched_scan30_phase"
    "filter (\<lambda>a. \<not> is_phase_store a) sched_probe30 = filter (\<lambda>a. \<not> is_phase_store a) sched_probe30_phase"
    by (simp_all add: sched_scan30_def sched_scan30_phase_def sched_probe30_def sched_probe30_phase_def)
  have e: "scan_exec \<lparr>scan_ipnet = ipv4_net30\<rparr> 5 sched_scan30_phase = Some (closed_scan30\<lparr>phase := 9\<rparr>)"
    "probe_exec \<lparr>probe_ipnet = ipv4_net30\<rparr> 5 sched_probe30_phase = Some (closed_probe30\<lparr>phase := 9\<rparr>)"
    by code_simp+
  note t = phase_independence[of sched_scan30 sched_scan30_phase "\<lparr>scan_ipnet = ipv4_net30\<rparr>" 0
      closed_scan30 5 "closed_scan30\<lparr>phase := 9\<rparr>" sched_probe30 sched_probe30_phase
      "\<lparr>probe_ipnet = ipv4_net30\<rparr>" 0 closed_probe30 5 "closed_probe30\<lparr>phase := 9\<rparr>"]
  from t[THEN conjunct1, rule_format, OF f(1) scan_exec_sched_scan30 e(1)]
  have 1: "sink closed_scan30 = sink (closed_scan30\<lparr>phase := 9\<rparr>)" by simp
  from t[THEN conjunct2, rule_format, OF f(2) probe_exec_sched_probe30 e(2)]
  have 2: "sink closed_probe30 = sink (closed_probe30\<lparr>phase := 9\<rparr>)" by simp
  from 1 2 f e scan_exec_sched_scan30 probe_exec_sched_probe30 show ?thesis by (intro conjI)
qed

subsection \<open>The scanning step\<close>




lemma scan_step_ge64: assumes "64 \<le> hb" shows "snd (scan_step h hb st) = None"
proof -
  have b: "isub (shl1 hb) 1 = - 1" using assms by (rule bound_ge64)
  show ?thesis unfolding scan_step_def Let_def b by auto
qed

subsection \<open>What is offered lies in the host range\<close>

lemma scan_step_offer_range:
  assumes "2 \<le> hb" "scan_step h hb st = (st', Some n)"
  shows "0 < n \<and> n < 2 ^ nat hb - 1"
proof (cases "hb \<le> 63")
  case True
  from assms(2) show ?thesis
    by (auto simp: scan_step_def Let_def bound_valid[OF assms(1) True] split: if_splits)
next
  case False
  then have "snd (scan_step h hb st) = None" by (intro scan_step_ge64) simp
  with assms(2) show ?thesis by simp
qed

lemma probe_draw_range:
  assumes "2 \<le> hb" "probe_draw hb r = Some n"
  shows "0 < n \<and> n < 2 ^ nat hb - 1"
proof (cases "hb \<le> 63")
  case True
  have a: "isub (shl1 hb) 2 = 2 ^ nat hb - 2" using assms(1) True by (rule draw_arg_valid)
  have p: "(4 :: int) \<le> 2 ^ nat hb" using assms(1) by (rule pow2_ge4)
  have q: "(2 :: int) ^ nat hb \<le> 2 ^ 63" using assms(1) True by (intro pow2_le_63) simp_all
  define m :: int where "m = 2 ^ nat hb - 2"
  have m: "0 < m" "m \<le> 2 ^ 63 - 2" using p q by (simp_all add: m_def)
  define v where "v = r mod m"
  have v: "0 \<le> v" "v < m" using m by (simp_all add: v_def)
  have "- (2 ^ 63) \<le> v + 1" "v + 1 < 2 ^ 63" using v m by simp_all
  then have w: "iadd v 1 = v + 1" unfolding iadd_def by (rule wrap64_id)
  from assms(2) have "n = v + 1"
    using m(1) by (simp add: probe_draw_def Intn_def a m_def[symmetric] v_def[symmetric] w)
  with v show ?thesis by (simp add: m_def)
next
  case False
  then have "isub (shl1 hb) 2 = - 2" by (intro draw_arg_ge64) simp
  with assms(2) show ?thesis by (simp add: probe_draw_def Intn_def)
qed

lemma probe_draw_valid:
  assumes "2 \<le> hb" "hb \<le> 63"
  shows "\<exists>n. probe_draw hb r = Some n \<and> 1 \<le> n \<and> n \<le> 2 ^ nat hb - 2"
proof -
  have a: "isub (shl1 hb) 2 = 2 ^ nat hb - 2" using assms by (rule draw_arg_valid)
  have p: "(4 :: int) \<le> 2 ^ nat hb" using assms(1) by (rule pow2_ge4)
  then obtain n where n: "probe_draw hb r = Some n" by (auto simp: probe_draw_def Intn_def a)
  from probe_draw_range[OF assms(1) n] n show ?thesis by auto
qed

lemma offers_ok_step:
  assumes b: "\<And>r pc st a. body r pc = Some (AtSelect st a) \<Longrightarrow> V a"
    and o: "offers_ok V x" and s: "sched body a x = Some y"
  shows "offers_ok V y"
proof (cases a)
  case (Run r)
  with s obtain pc' where pc': "body r (run x) = Some pc'" and y: "y = x\<lparr>run := pc'\<rparr>"
    by (auto simp: sched_def split: if_splits)
  show ?thesis using o b[of r "run x"] pc' unfolding y offers_ok_def
    by (cases pc') auto
qed (use s o in \<open>auto simp: sched_def offers_ok_def split: if_splits run_pc.splits\<close>)

lemma scan_offers:
  assumes "2 \<le> hostBits (scan_ipnet s)" "scanSeeder_run s pc = Some (AtSelect st a)"
  shows "in_host_range (scan_ipnet s) a"
proof -
  from assms(2) obtain h st0 st' n where
    "scan_step h (hostBits (scan_ipnet s)) st0 = (st', Some n)" "a = mkHost (scan_ipnet s) n"
    unfolding scanSeeder_run_def Let_def
    by (auto split: run_pc.splits option.splits prod.splits if_splits)
  with scan_step_offer_range[OF assms(1) this(1)] show ?thesis
    unfolding in_host_range_def by blast
qed

lemma probe_offers:
  assumes "2 \<le> hostBits (probe_ipnet s)" "probeSeeder_run s r pc = Some (AtSelect st a)"
  shows "in_host_range (probe_ipnet s) a"
proof -
  from assms(2) obtain n where
    "probe_draw (hostBits (probe_ipnet s)) r = Some n" "a = mkHost (probe_ipnet s) n"
    unfolding probeSeeder_run_def Let_def
    by (auto split: run_pc.splits option.splits prod.splits if_splits)
  with probe_draw_range[OF assms(1) this(1)] show ?thesis
    unfolding in_host_range_def by blast
qed

lemma scan_sink_in_range:
  assumes hb: "2 \<le> hostBits (scan_ipnet s)" and e: "scan_exec s ph acts = Some c"
  shows "offers_ok (in_host_range (scan_ipnet s)) c"
  using e unfolding scan_exec_def
proof (rule exec_invariant)
  show "offers_ok (in_host_range (scan_ipnet s)) (fst (scanSeeder_Start s ph))"
    by (simp add: offers_ok_def scanSeeder_Start_def)
next
  fix a x y
  assume "offers_ok (in_host_range (scan_ipnet s)) x" "sched (\<lambda>r. scanSeeder_run s) a x = Some y"
  then show "offers_ok (in_host_range (scan_ipnet s)) y"
    by (rule offers_ok_step[where body = "\<lambda>r. scanSeeder_run s" and x = x, rotated]) (rule scan_offers[OF hb])
qed

lemma probe_sink_in_range:
  assumes hb: "2 \<le> hostBits (probe_ipnet s)" and e: "probe_exec s ph acts = Some c"
  shows "offers_ok (in_host_range (probe_ipnet s)) c"
  using e unfolding probe_exec_def
proof (rule exec_invariant)
  show "offers_ok (in_host_range (probe_ipnet s)) (fst (probeSeeder_Start s ph))"
    by (simp add: offers_ok_def probeSeeder_Start_def)
next
  fix a x y
  assume "offers_ok (in_host_range (probe_ipnet s)) x" "sched (probeSeeder_run s) a x = Some y"
  then show "offers_ok (in_host_range (probe_ipnet s)) y"
    by (rule offers_ok_step[where body = "probeSeeder_run s" and x = x, rotated]) (rule probe_offers[OF hb])
qed

subsection \<open>The host part of a generated address\<close>

lemma be_int_snoc: "be_int (xs @ [b]) = be_int xs * 256 + uint b"
  by (simp add: be_int_def)

lemma be_int_Nil: "be_int [] = 0"
  by (simp add: be_int_def)

lemma be_int_snoc_concat: "be_int (xs @ [b]) = concat_bit 8 (uint b) (be_int xs)"
proof -
  have "uint b < 2 ^ 8" using uint_bounded[of b] by simp
  then have "take_bit 8 (uint b) = uint b" by (simp add: take_bit_int_eq_self)
  then show ?thesis by (simp add: be_int_snoc concat_bit_eq push_bit_eq_mult)
qed

lemma bit_be_int_low:
  assumes "k < 8"
  shows "bit (be_int (xs @ [b])) k \<longleftrightarrow> bit b k"
  using assms by (simp add: be_int_snoc_concat bit_concat_bit_iff bit_uint_iff)

lemma bit_be_int_high:
  assumes "8 \<le> k"
  shows "bit (be_int (xs @ [b])) k \<longleftrightarrow> bit (be_int xs) (k - 8)"
  using assms by (simp add: be_int_snoc_concat bit_concat_bit_iff)

lemma bit_be_int:
  "bit (be_int xs) k \<longleftrightarrow> k < 8 * length xs \<and> bit (xs ! (length xs - 1 - k div 8)) (k mod 8)"
proof (induction xs arbitrary: k rule: rev_induct)
  case Nil
  then show ?case by (simp add: be_int_Nil)
next
  case (snoc b xs)
  show ?case
  proof (cases "k < 8")
    case True
    then have "k div 8 = 0" "k mod 8 = k" by simp_all
    then have "(xs @ [b]) ! (length (xs @ [b]) - 1 - k div 8) = b" by simp
    with True show ?thesis using bit_be_int_low[OF True, of xs b] by (simp add: \<open>k mod 8 = k\<close>)
  next
    case False
    then have k: "8 \<le> k" by simp
    then obtain m where m: "k = m + 8" by (metis le_add_diff_inverse2)
    have d: "(k - 8) div 8 = k div 8 - 1" "(k - 8) mod 8 = k mod 8" "1 \<le> k div 8"
      by (simp_all add: m)
    have lt: "k - 8 < 8 * length xs \<longleftrightarrow> k < 8 * length (xs @ [b])" using k by auto
    have ix: "(xs @ [b]) ! (length (xs @ [b]) - 1 - k div 8) = xs ! (length xs - 1 - (k - 8) div 8)"
      if "k < 8 * length (xs @ [b])"
    proof -
      from that have "k div 8 \<le> length xs" by simp
      with d(3) have "length xs - k div 8 < length xs" "length xs - 1 - (k div 8 - 1) = length xs - k div 8"
        by arith+
      then show ?thesis by (simp add: nth_append d(1))
    qed
    have "bit (be_int (xs @ [b])) k \<longleftrightarrow> bit (be_int xs) (k - 8)"
      using k by (rule bit_be_int_high)
    also have "\<dots> \<longleftrightarrow> k - 8 < 8 * length xs \<and> bit (xs ! (length xs - 1 - (k - 8) div 8)) ((k - 8) mod 8)"
      by (rule snoc.IH)
    also have "\<dots> \<longleftrightarrow> k < 8 * length (xs @ [b]) \<and> bit ((xs @ [b]) ! (length (xs @ [b]) - 1 - k div 8)) (k mod 8)"
      unfolding lt d(2) using ix by auto
    finally show ?thesis .
  qed
qed

lemma length_fill: "length (fill n host x) = length host"
  by (induction n arbitrary: host x) simp_all

lemma nth_fill:
  assumes "n \<le> length host" "i < length host"
  shows "fill n host x ! i =
     (if i < n then host ! i OR word_of_int (drop_bit (8 * (n - 1 - i)) x AND 255) else host ! i)"
  using assms
proof (induction n arbitrary: host x)
  case 0
  then show ?case by simp
next
  case (Suc n)
  let ?h = "host[n := host ! n OR word_of_int (x AND 255)]"
  have l: "n \<le> length ?h" "i < length ?h" using Suc.prems by simp_all
  have ih: "fill n ?h (drop_bit 8 x) ! i =
     (if i < n then ?h ! i OR word_of_int (drop_bit (8 * (n - 1 - i)) (drop_bit 8 x) AND 255) else ?h ! i)"
    by (rule Suc.IH[OF l])
  show ?case
  proof (cases "i < n")
    case True
    then have "8 * (n - 1 - i) + 8 = 8 * (n - i)" by simp
    then have "drop_bit (8 * (n - 1 - i)) (drop_bit 8 x) = drop_bit (8 * (n - i)) x"
      by (simp only: drop_bit_drop_bit)
    with True ih show ?thesis by simp
  next
    case False
    then show ?thesis using ih Suc.prems by (cases "i = n") simp_all
  qed
qed

lemma bit_low_byte: "bit (word_of_int (y AND 255) :: byte) j \<longleftrightarrow> j < 8 \<and> bit y j"
proof -
  have "(255 :: int) = mask 8" by (simp add: mask_eq_exp_minus_1)
  then have "y AND 255 = take_bit 8 y" by (simp add: take_bit_eq_mask)
  then show ?thesis by (auto simp: bit_word_of_int_iff bit_take_bit_iff)
qed

lemma bit_be_int_fill:
  "bit (be_int (fill (length host) host x)) k \<longleftrightarrow>
     k < 8 * length host \<and> (bit (be_int host) k \<or> bit x k)"
proof (cases "k < 8 * length host")
  case True
  define i where "i = length host - 1 - k div 8"
  from True have q: "k div 8 < length host" by simp
  then have i: "i < length host" "length host - 1 - i = k div 8" unfolding i_def by arith+
  have k: "8 * (k div 8) + k mod 8 = k" by simp
  have "bit (be_int (fill (length host) host x)) k \<longleftrightarrow> bit (fill (length host) host x ! i) (k mod 8)"
    using True by (simp add: bit_be_int length_fill i_def)
  also have "fill (length host) host x ! i = host ! i OR word_of_int (drop_bit (8 * (k div 8)) x AND 255)"
    using i by (simp add: nth_fill)
  also have "bit (host ! i OR word_of_int (drop_bit (8 * (k div 8)) x AND 255)) (k mod 8)
      \<longleftrightarrow> bit (host ! i) (k mod 8) \<or> bit x k"
    by (simp add: bit_or_iff bit_low_byte bit_drop_bit_eq k)
  also have "bit (host ! i) (k mod 8) \<longleftrightarrow> bit (be_int host) k"
    using True by (simp add: bit_be_int i_def)
  finally show ?thesis using True by simp
next
  case False
  then show ?thesis by (simp add: bit_be_int length_fill)
qed

lemma bit_be_int_map2_and:
  assumes "length xs = length ys"
  shows "bit (be_int (map2 (\<lambda>a b. a AND b) xs ys)) k \<longleftrightarrow> bit (be_int xs) k \<and> bit (be_int ys) k"
proof (cases "k < 8 * length xs")
  case True
  then have "length xs - 1 - k div 8 < length xs" by arith
  then show ?thesis using assms True by (simp add: bit_be_int bit_and_iff)
next
  case False
  then show ?thesis using assms by (simp add: bit_be_int)
qed

lemma bit_be_int_Cons:
  "bit (be_int (v # rest)) k \<longleftrightarrow>
     (k < 8 * length rest \<and> bit (be_int rest) k) \<or>
     (8 * length rest \<le> k \<and> k < 8 * length rest + 8 \<and> bit v (k - 8 * length rest))"
proof (cases "k < 8 * length rest")
  case True
  then have "k div 8 < length rest" by simp
  then have "length rest - k div 8 = Suc (length rest - 1 - k div 8)" by arith
  then show ?thesis using True by (simp add: bit_be_int)
next
  case False
  note ge = False
  show ?thesis
  proof (cases "k < 8 * length rest + 8")
    case True
    with ge obtain j where j: "k = 8 * length rest + j" "j < 8"
      by (metis add_less_cancel_left le_add_diff_inverse not_less)
    then have "k div 8 = length rest" "k mod 8 = j" by simp_all
    then show ?thesis using ge True j by (simp add: bit_be_int)
  next
    case False
    then show ?thesis using ge by (simp add: bit_be_int)
  qed
qed

lemma leadingOnes_shift:
  assumes "leadingOnes k v n = (n', v')"
  shows "\<exists>j\<le>k. n' = n + int j \<and> v' = push_bit j v"
  using assms
proof (induction k arbitrary: v n)
  case 0
  then show ?case by simp
next
  case (Suc k)
  show ?case
  proof (cases "v AND 0x80 \<noteq> 0")
    case True
    with Suc.prems have "leadingOnes k (push_bit 1 v) (n + 1) = (n', v')" by simp
    from Suc.IH[OF this] obtain j where "j \<le> k" "n' = n + 1 + int j" "v' = push_bit j (push_bit 1 v)"
      by blast
    then have "Suc j \<le> Suc k \<and> n' = n + int (Suc j) \<and> v' = push_bit (Suc j) v"
      by (simp add: push_bit_push_bit)
    then show ?thesis by blast
  next
    case False
    with Suc.prems have "n' = n + int 0 \<and> v' = push_bit 0 v" by simp
    then show ?thesis by blast
  qed
qed

lemma push_bit_zero_low:
  fixes v :: byte
  assumes "push_bit j v = 0" "i + j < 8"
  shows "\<not> bit v i"
proof
  assume "bit v i"
  then have "bit (push_bit j v) (i + j)" using assms(2) by (simp add: bit_push_bit_iff)
  with assms(1) show False by simp
qed

lemma all_zero_be_int:
  assumes "\<not> list_ex (\<lambda>b. b \<noteq> 0) rest" shows "\<not> bit (be_int rest) k"
proof
  assume b: "bit (be_int rest) k"
  then have "k < 8 * length rest" by (simp add: bit_be_int)
  then have "length rest - 1 - k div 8 < length rest" by arith
  then have "rest ! (length rest - 1 - k div 8) \<in> set rest" by simp
  with assms have "rest ! (length rest - 1 - k div 8) = 0" by (auto simp: list_ex_iff)
  with b show False by (simp add: bit_be_int)
qed

lemma simpleMaskLength_from_zero_low:
  assumes "simpleMaskLength_from m n = r" "r \<noteq> - 1" "0 \<le> n"
  shows "n \<le> r \<and> r \<le> n + 8 * int (length m) \<and>
         (\<forall>k. int k < n + 8 * int (length m) - r \<longrightarrow> \<not> bit (be_int m) k)"
  using assms
proof (induction m arbitrary: n)
  case Nil
  then show ?case by simp
next
  case (Cons v rest)
  show ?case
  proof (cases "v = 0xff")
    case True
    with Cons.prems have "simpleMaskLength_from rest (n + 8) = r" by simp
    from Cons.IH[OF this Cons.prems(2)] Cons.prems(3)
    have ih: "n + 8 \<le> r" "r \<le> n + 8 + 8 * int (length rest)"
      "\<And>k. int k < n + 8 + 8 * int (length rest) - r \<Longrightarrow> \<not> bit (be_int rest) k"
      by simp_all
    have "\<not> bit (be_int (v # rest)) k" if "int k < n + 8 * int (length (v # rest)) - r" for k
    proof -
      from that have a: "int k < n + 8 + 8 * int (length rest) - r" by simp
      with ih(1) have "k < 8 * length rest" by simp
      with ih(3)[OF a] show ?thesis by (simp add: bit_be_int_Cons)
    qed
    with ih(1,2) show ?thesis by simp
  next
    case False
    obtain n' v' where l: "leadingOnes 8 v n = (n', v')" by (cases "leadingOnes 8 v n")
    with False Cons.prems have v': "v' = 0" and z: "\<not> list_ex (\<lambda>b. b \<noteq> 0) rest" and r: "r = n'"
      by (auto split: if_splits)
    from leadingOnes_shift[OF l] v' obtain j where j: "j \<le> 8" "n' = n + int j" "push_bit j v = 0"
      by auto
    have "\<not> bit (be_int (v # rest)) k" if "int k < n + 8 * int (length (v # rest)) - r" for k
    proof (cases "k < 8 * length rest")
      case True
      then show ?thesis using all_zero_be_int[OF z] by (simp add: bit_be_int_Cons)
    next
      case False
      from that r j(2) have "int k < 8 * int (length rest) + 8 - int j" by simp
      with False have "(k - 8 * length rest) + j < 8" by simp
      from push_bit_zero_low[OF j(3) this] False show ?thesis by (simp add: bit_be_int_Cons)
    qed
    with r j(1,2) show ?thesis by simp
  qed
qed

lemma mask_zero_low:
  "0 \<le> hostBits ipnet \<and> hostBits ipnet \<le> 8 * int (length (Mask ipnet)) \<and>
   (\<forall>k. int k < hostBits ipnet \<longrightarrow> \<not> bit (be_int (Mask ipnet)) k)"
proof (cases "simpleMaskLength (Mask ipnet) = - 1")
  case True
  then show ?thesis by (simp add: hostBits_def Size_def)
next
  case False
  have "simpleMaskLength_from (Mask ipnet) 0 = simpleMaskLength (Mask ipnet)"
    by (simp add: simpleMaskLength_def)
  from simpleMaskLength_from_zero_low[OF this False] False show ?thesis
    by (simp add: hostBits_def Size_def Let_def mult.commute)
qed

lemma bit_be_int_drop12:
  assumes "length m = 16" "k < 32"
  shows "bit (be_int (drop 12 m)) k \<longleftrightarrow> bit (be_int m) k"
proof -
  from assms(2) have d: "k div 8 < 4" by simp
  then have "12 + (3 - k div 8) = 15 - k div 8" by arith
  then show ?thesis using assms d by (simp add: bit_be_int)
qed

lemma effective_mask_zero_low:
  assumes "length msk = 16" "allFF (take 12 msk)" "Mask ipnet = msk"
  shows "hostBits ipnet \<le> 32"
proof (rule ccontr)
  assume "\<not> hostBits ipnet \<le> 32"
  then have "int 32 < hostBits ipnet" by simp
  with mask_zero_low[of ipnet] have n: "\<not> bit (be_int msk) 32" using assms(3) by blast
  have "msk ! 11 = take 12 msk ! 11" by simp
  also have "\<dots> \<in> set (take 12 msk)" using assms(1) by (intro nth_mem) simp
  finally have "msk ! 11 = 0xff" using assms(2) by (simp add: allFF_def list_all_iff)
  then have "bit (be_int msk) 32" using assms(1) by (simp add: bit_be_int)
  with n show False by simp
qed

lemma IP_Mask_zero_low:
  assumes "IP_Mask (IP ipnet) (Mask ipnet) \<noteq> []"
  shows "hostBits ipnet \<le> 8 * int (length (IP_Mask (IP ipnet) (Mask ipnet))) \<and>
         (\<forall>k. int k < hostBits ipnet \<longrightarrow> \<not> bit (be_int (IP_Mask (IP ipnet) (Mask ipnet))) k)"
proof -
  define msk where "msk = Mask ipnet"
  define ip where "ip = IP ipnet"
  define mask1 where "mask1 = (if length msk = 16 \<and> length ip = 4 \<and> allFF (take 12 msk)
                   then drop 12 msk else msk)"
  define ip1 where "ip1 = (if length mask1 = 4 \<and> length ip = 16 \<and> take 12 ip = v4InV6Prefix
                 then drop 12 ip else ip)"
  have e: "IP_Mask ip msk = (if length ip1 \<noteq> length mask1 then [] else map2 (\<lambda>a b. a AND b) ip1 mask1)"
    by (simp add: IP_Mask_def Let_def mask1_def ip1_def)
  with assms have len: "length ip1 = length mask1" and h: "IP_Mask ip msk = map2 (\<lambda>a b. a AND b) ip1 mask1"
    by (auto simp: msk_def ip_def split: if_splits)
  have lh: "length (IP_Mask ip msk) = length mask1" using len by (simp add: h)
  note mz = mask_zero_low[of ipnet, folded msk_def]
  have m1: "hostBits ipnet \<le> 8 * int (length mask1) \<and>
            (\<forall>k. int k < hostBits ipnet \<longrightarrow> \<not> bit (be_int mask1) k)"
  proof (cases "length msk = 16 \<and> length ip = 4 \<and> allFF (take 12 msk)")
    case True
    then have m: "mask1 = drop 12 msk" "length mask1 = 4" by (simp_all add: mask1_def)
    from True have le: "hostBits ipnet \<le> 32"
      by (intro effective_mask_zero_low[of msk]) (simp_all add: msk_def)
    have "\<not> bit (be_int mask1) k" if "int k < hostBits ipnet" for k
    proof -
      from that le have "k < 32" by simp
      with True have "bit (be_int mask1) k \<longleftrightarrow> bit (be_int msk) k"
        unfolding m(1) by (intro bit_be_int_drop12) simp_all
      with mz that show ?thesis by blast
    qed
    with le m(2) show ?thesis by simp
  next
    case False
    then have "mask1 = msk" unfolding mask1_def by (simp only: if_False)
    with mz show ?thesis by simp
  qed
  have "\<not> bit (be_int (IP_Mask ip msk)) k" if "int k < hostBits ipnet" for k
    using m1 that unfolding h by (simp add: bit_be_int_map2_and[OF len])
  with m1 lh show ?thesis unfolding msk_def ip_def by simp
qed

lemma hostPart_mkHost:
  assumes wf: "IP_Mask (IP ipnet) (Mask ipnet) \<noteq> []" and h: "0 \<le> h" "h < 2 ^ nat (hostBits ipnet)"
  shows "hostPart ipnet (mkHost ipnet h) = h"
proof -
  define host where "host = IP_Mask (IP ipnet) (Mask ipnet)"
  define hb where "hb = nat (hostBits ipnet)"
  from IP_Mask_zero_low[OF wf] mask_zero_low[of ipnet]
  have z: "hb \<le> 8 * length host" "\<And>k. k < hb \<Longrightarrow> \<not> bit (be_int host) k"
    unfolding host_def hb_def by auto
  have "take_bit hb (be_int (mkHost ipnet h)) = take_bit hb h"
  proof (rule bit_eqI)
    fix k
    show "bit (take_bit hb (be_int (mkHost ipnet h))) k \<longleftrightarrow> bit (take_bit hb h) k"
    proof (cases "k < hb")
      case True
      with z have "k < 8 * length host" "\<not> bit (be_int host) k" by simp_all
      then show ?thesis using True
        by (simp add: bit_take_bit_iff mkHost_def Let_def host_def[symmetric] bit_be_int_fill)
    next
      case False
      then show ?thesis by (simp add: bit_take_bit_iff)
    qed
  qed
  moreover have "take_bit hb h = h" using h by (simp add: take_bit_int_eq_self hb_def)
  ultimately show ?thesis by (simp add: hostPart_def take_bit_eq_mod hb_def)
qed

lemma mkHost_inj:
  assumes "IP_Mask (IP ipnet) (Mask ipnet) \<noteq> []"
  shows "inj_on (mkHost ipnet) {0 <..< 2 ^ nat (hostBits ipnet) - 1}"
proof (rule inj_on_inverseI[where g = "hostPart ipnet"])
  fix h :: int
  assume "h \<in> {0 <..< 2 ^ nat (hostBits ipnet) - 1}"
  then show "hostPart ipnet (mkHost ipnet h) = h"
    using assms by (intro hostPart_mkHost) simp_all
qed

text \<open>
  Claim C2. With two host bits or more, every address the consumer ever receives from
  either seeder is built from a host segment \<open>h\<close> with \<open>0 < h < 2^hostBits - 1\<close>. Where
  address and mask fit (\<^verbatim>\<open>IP.Mask\<close> is not nil), the host part of the address is that
  \<open>h\<close>: it is neither all zeros (the network address) nor all ones (the broadcast
  address).
\<close>

theorem emitted_in_host_range:
  "2 \<le> hostBits ipnet \<longrightarrow>
     (scan_exec \<lparr>scan_ipnet = ipnet\<rparr> ph acts = Some c \<longrightarrow> a \<in> set (sink c) \<longrightarrow>
        (\<exists>h. 0 < h \<and> h < 2 ^ nat (hostBits ipnet) - 1 \<and> a = mkHost ipnet h \<and>
             (IP_Mask (IP ipnet) (Mask ipnet) \<noteq> [] \<longrightarrow> hostPart ipnet a = h))) \<and>
     (probe_exec \<lparr>probe_ipnet = ipnet\<rparr> ph' acts' = Some d \<longrightarrow> b \<in> set (sink d) \<longrightarrow>
        (\<exists>h. 0 < h \<and> h < 2 ^ nat (hostBits ipnet) - 1 \<and> b = mkHost ipnet h \<and>
             (IP_Mask (IP ipnet) (Mask ipnet) \<noteq> [] \<longrightarrow> hostPart ipnet b = h)))"
proof (intro impI conjI)
  assume hb: "2 \<le> hostBits ipnet"
  have r: "\<exists>h. 0 < h \<and> h < 2 ^ nat (hostBits ipnet) - 1 \<and> x = mkHost ipnet h \<and>
             (IP_Mask (IP ipnet) (Mask ipnet) \<noteq> [] \<longrightarrow> hostPart ipnet x = h)"
    if "in_host_range ipnet x" for x
  proof -
    from that obtain h where h: "0 < h" "h < 2 ^ nat (hostBits ipnet) - 1" "x = mkHost ipnet h"
      unfolding in_host_range_def by blast
    then have "hostPart ipnet x = h" if "IP_Mask (IP ipnet) (Mask ipnet) \<noteq> []"
      using that by (simp add: hostPart_mkHost)
    with h show ?thesis by blast
  qed
  { assume "scan_exec \<lparr>scan_ipnet = ipnet\<rparr> ph acts = Some c" "a \<in> set (sink c)"
    with scan_sink_in_range[of "\<lparr>scan_ipnet = ipnet\<rparr>" ph acts c] hb
    have "in_host_range ipnet a" by (simp add: offers_ok_def list_all_iff)
    then show "\<exists>h. 0 < h \<and> h < 2 ^ nat (hostBits ipnet) - 1 \<and> a = mkHost ipnet h \<and>
             (IP_Mask (IP ipnet) (Mask ipnet) \<noteq> [] \<longrightarrow> hostPart ipnet a = h)" by (rule r) }
  { assume "probe_exec \<lparr>probe_ipnet = ipnet\<rparr> ph' acts' = Some d" "b \<in> set (sink d)"
    with probe_sink_in_range[of "\<lparr>probe_ipnet = ipnet\<rparr>" ph' acts' d] hb
    have "in_host_range ipnet b" by (simp add: offers_ok_def list_all_iff)
    then show "\<exists>h. 0 < h \<and> h < 2 ^ nat (hostBits ipnet) - 1 \<and> b = mkHost ipnet h \<and>
             (IP_Mask (IP ipnet) (Mask ipnet) \<noteq> [] \<longrightarrow> hostPart ipnet b = h)" by (rule r) }
qed

theorem emitted_in_host_range_witness:
  "2 \<le> hostBits ipv4_net30 \<and>
   IP_Mask (IP ipv4_net30) (Mask ipv4_net30) = [192, 168, 0, 100] \<and>
   scan_exec \<lparr>scan_ipnet = ipv4_net30\<rparr> 0 sched_scan30 = Some closed_scan30 \<and>
   [192, 168, 0, 101] \<in> set (sink closed_scan30) \<and>
   0 < hostPart ipv4_net30 [192, 168, 0, 101] \<and>
   hostPart ipv4_net30 [192, 168, 0, 101] < 2 ^ nat (hostBits ipv4_net30) - 1 \<and>
   probe_exec \<lparr>probe_ipnet = ipv4_net30\<rparr> 0 sched_probe30 = Some closed_probe30 \<and>
   [192, 168, 0, 102] \<in> set (sink closed_probe30) \<and>
   0 < hostPart ipv4_net30 [192, 168, 0, 102] \<and>
   hostPart ipv4_net30 [192, 168, 0, 102] < 2 ^ nat (hostBits ipv4_net30) - 1"
proof -
  have hb: "2 \<le> hostBits ipv4_net30" by (simp add: hostBits_ipv4_net30)
  have m: "IP_Mask (IP ipv4_net30) (Mask ipv4_net30) = [192, 168, 0, 100]" by code_simp
  then have wf: "IP_Mask (IP ipv4_net30) (Mask ipv4_net30) \<noteq> []" by simp
  have s: "[192, 168, 0, 101] \<in> set (sink closed_scan30)" "[192, 168, 0, 102] \<in> set (sink closed_probe30)"
    by (simp_all add: closed_scan30_def closed_probe30_def)
  note t = emitted_in_host_range[of ipv4_net30 0 sched_scan30 closed_scan30 "[192, 168, 0, 101]"
      0 sched_probe30 closed_probe30 "[192, 168, 0, 102]"]
  from t hb scan_exec_sched_scan30 s(1) wf obtain h where
    "0 < h" "h < 2 ^ nat (hostBits ipv4_net30) - 1" "hostPart ipv4_net30 [192, 168, 0, 101] = h"
    by blast
  then have 1: "0 < hostPart ipv4_net30 [192, 168, 0, 101]"
    "hostPart ipv4_net30 [192, 168, 0, 101] < 2 ^ nat (hostBits ipv4_net30) - 1" by simp_all
  from t hb probe_exec_sched_probe30 s(2) wf obtain h' where
    "0 < h'" "h' < 2 ^ nat (hostBits ipv4_net30) - 1" "hostPart ipv4_net30 [192, 168, 0, 102] = h'"
    by blast
  then have 2: "0 < hostPart ipv4_net30 [192, 168, 0, 102]"
    "hostPart ipv4_net30 [192, 168, 0, 102] < 2 ^ nat (hostBits ipv4_net30) - 1" by simp_all
  from hb m scan_exec_sched_scan30 probe_exec_sched_probe30 s 1 2 show ?thesis by (intro conjI)
qed

subsection \<open>The origin of the scan\<close>

lemma hostIP_term:
  assumes "j < 8" "j \<le> i"
  shows "0 \<le> uint (b :: byte) AND shl1 (int j)" "uint b AND shl1 (int j) \<le> 2 ^ i"
    "uint b AND shl1 (int j) \<le> 128"
proof -
  have p: "(0 :: int) \<le> 2 ^ j" by simp
  show "0 \<le> uint b AND shl1 (int j)" by (simp add: shl1_low[OF assms(1)])
  have u: "uint b AND shl1 (int j) \<le> 2 ^ j"
    unfolding shl1_low[OF assms(1)] using p by (rule AND_upper2)
  have "(2 :: int) ^ j \<le> 2 ^ i" using assms(2) by (intro power_increasing) simp_all
  with u show "uint b AND shl1 (int j) \<le> 2 ^ i" by (rule order_trans)
  have "(2 :: int) ^ j \<le> 2 ^ 7" using assms(1) by (intro power_increasing) simp_all
  then have "(2 :: int) ^ j \<le> 128" by simp
  with u show "uint b AND shl1 (int j) \<le> 128" by (rule order_trans)
qed

lemma hostIP_loop_bounds:
  assumes "hostIP_loop ip i r acc = Some H" "i + r \<le> 63" "0 \<le> acc" "acc < 2 ^ i" "acc \<le> 128 * int i"
  shows "0 \<le> H \<and> H < 2 ^ (i + r) \<and> H \<le> 128 * int (i + r)"
  using assms
proof (induction r arbitrary: i acc)
  case 0
  then show ?case by simp
next
  case (Suc r)
  define t where "t = uint (ip ! nat (int (length ip) - 1 - int (i div 8))) AND shl1 (int (i mod 8))"
  have "i mod 8 < 8" "i mod 8 \<le> i" by simp_all
  note ht = hostIP_term[OF this, of "ip ! nat (int (length ip) - 1 - int (i div 8))"]
  have t: "0 \<le> t" "t \<le> 2 ^ i" "t \<le> 128"
    unfolding t_def by (rule ht)+
  have "(2 :: int) ^ Suc i \<le> 2 ^ 63" using Suc.prems(2) by (intro power_increasing) simp_all
  then have b: "acc + t < 2 ^ 63" using Suc.prems(4) t(2) by simp
  have "- (2 ^ 63) \<le> acc + t" using Suc.prems(3) t(1) by simp
  then have a: "iadd acc t = acc + t" unfolding iadd_def using b by (rule wrap64_id)
  from Suc.prems(1) have l: "hostIP_loop ip (Suc i) r (acc + t) = Some H"
    by (simp add: Let_def t_def[symmetric] a split: if_splits)
  have "0 \<le> H \<and> H < 2 ^ (Suc i + r) \<and> H \<le> 128 * int (Suc i + r)"
    using Suc.prems(2,3,4,5) t by (intro Suc.IH[OF l]) simp_all
  then show ?case by simp
qed

lemma hostIP_loop_total:
  assumes "i + r \<le> 8 * length ip"
  shows "\<exists>H. hostIP_loop ip i r acc = Some H"
  using assms
proof (induction r arbitrary: i acc)
  case 0
  then show ?case by simp
next
  case (Suc r)
  then have "i < 8 * length ip" by simp
  then have "i div 8 < length ip" by simp
  then have "\<not> (int (length ip) - 1 - int (i div 8) < 0 \<or> int (length ip) \<le> int (length ip) - 1 - int (i div 8))"
    by simp
  moreover have "\<exists>H. hostIP_loop ip (Suc i) r acc' = Some H" for acc'
    using Suc.prems by (intro Suc.IH) simp
  ultimately show ?case by (simp add: Let_def)
qed

lemma hostIP_of_bounds:
  assumes "hostIP_of ipnet = Some H" "hostBits ipnet \<le> 63"
  shows "0 \<le> H" "H \<le> 2 ^ nat (hostBits ipnet) - 1" "H < 2 ^ 62"
proof -
  have b: "0 \<le> H \<and> H < 2 ^ (0 + nat (hostBits ipnet)) \<and> H \<le> 128 * int (0 + nat (hostBits ipnet))"
    using assms by (intro hostIP_loop_bounds[of "IP ipnet" 0 _ 0]) (simp_all add: hostIP_of_def)
  then show "0 \<le> H" "H \<le> 2 ^ nat (hostBits ipnet) - 1" by simp_all
  have "int (0 + nat (hostBits ipnet)) \<le> 63" using assms(2) by simp
  then have "128 * int (0 + nat (hostBits ipnet)) \<le> 128 * 63" by (intro mult_left_mono) simp_all
  with b have "H \<le> 128 * 63" by linarith
  then show "H < 2 ^ 62" by simp
qed

lemma length_IP_Mask: "length (IP_Mask ip msk) \<le> length ip"
  by (simp add: IP_Mask_def Let_def)

lemma hostIP_of_total:
  assumes "IP_Mask (IP ipnet) (Mask ipnet) \<noteq> []"
  shows "\<exists>H. hostIP_of ipnet = Some H"
proof -
  from IP_Mask_zero_low[OF assms] length_IP_Mask[of "IP ipnet" "Mask ipnet"]
  have "hostBits ipnet \<le> 8 * int (length (IP ipnet))" by simp
  then have "0 + nat (hostBits ipnet) \<le> 8 * length (IP ipnet)" by simp
  then show ?thesis unfolding hostIP_of_def by (rule hostIP_loop_total)
qed

lemma and_exp_int: "(k :: int) AND 2 ^ n = of_bool (bit k n) * 2 ^ n"
  by (rule bit_eqI) (auto simp: bit_and_iff bit_exp_iff)

lemma hostIP_loop_low:
  assumes "i + r \<le> 8" "ip \<noteq> []" "acc = take_bit i (uint (last ip))"
  shows "hostIP_loop ip i r acc = Some (take_bit (i + r) (uint (last ip)))"
  using assms
proof (induction r arbitrary: i acc)
  case 0
  then show ?case by simp
next
  case (Suc r)
  define b where "b = last ip"
  from Suc.prems(1) have i: "i < 8" by simp
  then have d: "i div 8 = 0" "i mod 8 = i" by simp_all
  have idx: "int (length ip) - 1 - int (i div 8) = int (length ip - 1)"
    using Suc.prems(2) by (cases ip) (simp_all add: d)
  have nth: "ip ! nat (int (length ip) - 1 - int (i div 8)) = b"
    unfolding idx b_def using Suc.prems(2) by (simp add: last_conv_nth)
  have ok: "\<not> (int (length ip) - 1 - int (i div 8) < 0 \<or> int (length ip) \<le> int (length ip) - 1 - int (i div 8))"
    unfolding idx using Suc.prems(2) by (cases ip) simp_all
  have t: "uint b AND shl1 (int (i mod 8)) = of_bool (bit (uint b) i) * 2 ^ i"
    unfolding d shl1_low[OF i] by (rule and_exp_int)
  have s: "take_bit i (uint b) + of_bool (bit (uint b) i) * 2 ^ i = take_bit (Suc i) (uint b)"
    by (simp add: take_bit_Suc_from_most)
  have "take_bit (Suc i) (uint b) < 2 ^ Suc i" by (rule take_bit_int_less_exp)
  moreover have "(2 :: int) ^ Suc i \<le> 2 ^ 8" using i by (intro power_increasing) simp_all
  ultimately have u: "take_bit (Suc i) (uint b) < 2 ^ 63" by simp
  have "(0 :: int) \<le> take_bit (Suc i) (uint b)" by (rule take_bit_nonnegative)
  moreover have "- (2 ^ 63) \<le> (0 :: int)" by simp
  ultimately have l: "- (2 ^ 63) \<le> take_bit (Suc i) (uint b)" by (rule order_trans[rotated])
  have a: "iadd acc (uint b AND shl1 (int (i mod 8))) = take_bit (Suc i) (uint b)"
    unfolding iadd_def t Suc.prems(3) b_def[symmetric] s using l u by (rule wrap64_id)
  have "hostIP_loop ip (Suc i) r (take_bit (Suc i) (uint b)) = Some (take_bit (Suc i + r) (uint (last ip)))"
    using Suc.prems(1,2) by (intro Suc.IH) (simp_all add: b_def)
  then show ?case using ok by (simp add: Let_def nth a del: take_bit_Suc)
qed

lemma hostIP_of_own_offset:
  assumes "hostBits ipnet \<le> 8" "IP ipnet \<noteq> []"
  shows "hostIP_of ipnet = Some (spec_ownHostOffset ipnet)"
proof -
  define hb where "hb = nat (hostBits ipnet)"
  have hb: "hb \<le> 8" using assms(1) by (simp add: hb_def)
  have "hostIP_of ipnet = Some (take_bit (0 + hb) (uint (last (IP ipnet))))"
    unfolding hostIP_of_def hb_def[symmetric] using hb assms(2) by (intro hostIP_loop_low) simp_all
  moreover have "take_bit hb (be_int (IP ipnet)) = take_bit hb (uint (last (IP ipnet)))"
  proof (rule bit_eqI)
    fix k
    show "bit (take_bit hb (be_int (IP ipnet))) k \<longleftrightarrow> bit (take_bit hb (uint (last (IP ipnet)))) k"
    proof (cases "k < hb")
      case True
      with hb have k: "k < 8" by simp
      then have "k div 8 = 0" "k mod 8 = k" by simp_all
      moreover have "k < 8 * length (IP ipnet)" using k assms(2) by (cases "IP ipnet") simp_all
      ultimately show ?thesis using True assms(2) k
        by (simp add: bit_take_bit_iff bit_be_int bit_uint_iff last_conv_nth)
    next
      case False
      then show ?thesis by (simp add: bit_take_bit_iff)
    qed
  qed
  ultimately show ?thesis by (simp add: spec_ownHostOffset_def take_bit_eq_mod hb_def)
qed

text \<open>
  Claim C4, at the network \<^verbatim>\<open>192.168.1.100/20\<close>. The host part of the address is
  \<open>1 * 256 + 100 = 356\<close>, but the loop that computes \<^verbatim>\<open>hostIP\<close> adds the bits of each
  byte without shifting them to the byte's position, and yields \<open>100 + 1 = 101\<close>. The first
  address offered is \<^verbatim>\<open>192.168.0.101\<close>, not the host's own \<^verbatim>\<open>192.168.1.100\<close>.
\<close>

theorem scan_origin_ipv4_net20:
  "hostBits ipv4_net20 = 12 \<and>
   spec_ownHostOffset ipv4_net20 = 356 \<and>
   hostIP_of ipv4_net20 = Some 101 \<and>
   mkHost ipv4_net20 356 = [192, 168, 1, 100] \<and>
   scan_exec \<lparr>scan_ipnet = ipv4_net20\<rparr> ph [Run r, Run r']
     = Some \<lparr>run = AtSelect (101, \<lparr>up = True, down = True, offset = 1\<rparr>) [192, 168, 0, 101],
             closer = NotCalled, sink = [], phase = ph\<rparr>"
proof -
  have s: "scan_step 101 12 scan_init = (\<lparr>up = True, down = True, offset = 1\<rparr>, Some 101)"
    by code_simp
  have m: "mkHost ipv4_net20 101 = [192, 168, 0, 101]" "mkHost ipv4_net20 356 = [192, 168, 1, 100]"
    by code_simp+
  have "scan_exec \<lparr>scan_ipnet = ipv4_net20\<rparr> ph [Run r, Run r']
     = Some \<lparr>run = AtSelect (101, \<lparr>up = True, down = True, offset = 1\<rparr>) [192, 168, 0, 101],
             closer = NotCalled, sink = [], phase = ph\<rparr>"
    by (simp add: scan_exec_def scanSeeder_Start_def sched_def scanSeeder_run_def
        hostBits_ipv4_net20 hostIP_ipv4_net20 s m)
  then show ?thesis
    using hostBits_ipv4_net20 spec_ownHostOffset_ipv4_net20 hostIP_ipv4_net20 m by (intro conjI)
qed

theorem scan_origin_ipv4_net20_witness:
  "hostIP_of ipv4_net20 = Some 101 \<and> spec_ownHostOffset ipv4_net20 = 356 \<and>
   scan_exec \<lparr>scan_ipnet = ipv4_net20\<rparr> 0 [Run 0, Run 0]
     = Some \<lparr>run = AtSelect (101, \<lparr>up = True, down = True, offset = 1\<rparr>) [192, 168, 0, 101],
             closer = NotCalled, sink = [], phase = 0\<rparr>"
  using scan_origin_ipv4_net20[of 0 0 0] by (intro conjI) blast+

subsection \<open>One cycle of the scan\<close>

lemma scan_iter_add:
  "scan_iter h hb (m + n) st =
     (case scan_iter h hb m st of (os1, st1) \<Rightarrow>
        (case scan_iter h hb n st1 of (os2, st2) \<Rightarrow> (os1 @ os2, st2)))"
  by (induction n) (auto split: prod.splits option.splits)

lemma scan_iter_Suc_eq:
  assumes "scan_iter h hb m st = (os, st1)" "scan_step h hb st1 = (st2, nxt)"
  shows "scan_iter h hb (Suc m) st = (os @ offered nxt, st2)"
  using assms by simp

lemma step_init:
  assumes t: "isub (shl1 hb) 1 = lim" "3 \<le> lim" "lim < 2 ^ 63" and H: "0 \<le> H" "H \<le> lim"
  shows "scan_step H hb scan_init = (round_up H lim 1, if 0 < H \<and> H < lim then Some H else None)"
proof -
  have "- (2 ^ 63) \<le> H + 0" "H + 0 < 2 ^ 63" using H t by simp_all
  then have c: "iadd H 0 = H + 0" unfolding iadd_def by (rule wrap64_id)
  have f: "flip_offset 0 = 1" by (simp add: flip_offset_def ineg_def iadd_def wrap64_def)
  show ?thesis
    using H t(2,3) unfolding scan_step_def Let_def t(1) round_up_def
    by (auto simp: scan_init_def c f)
qed

lemma step_up:
  assumes t: "isub (shl1 hb) 1 = lim" "3 \<le> lim" "lim < 2 ^ 63"
    and H: "0 \<le> H" "H \<le> lim" "H < 2 ^ 62"
    and k: "1 \<le> k" "k \<le> lim - H \<or> k \<le> H"
  shows "scan_step H hb (round_up H lim k) =
           (round_down H lim k, if k < lim - H then Some (H + k) else None)"
proof -
  have r: "- (2 ^ 63) \<le> H + k" "H + k < 2 ^ 63" "- (2 ^ 63) \<le> - k" "- k < 2 ^ 63"
    using H k t(2,3) by auto
  have c: "iadd H k = H + k" unfolding iadd_def using r(1,2) by (rule wrap64_id)
  have g: "ineg k = - k" unfolding ineg_def using r(3,4) by (rule wrap64_id)
  have f: "flip_offset k = - k" using k(1) by (simp add: flip_offset_def g)
  show ?thesis
    using H k t(2,3) unfolding scan_step_def Let_def t(1) round_up_def round_down_def
    by (auto simp: c f)
qed

lemma step_down:
  assumes t: "isub (shl1 hb) 1 = lim" "3 \<le> lim" "lim < 2 ^ 63"
    and H: "0 \<le> H" "H \<le> lim" "H < 2 ^ 62"
    and k: "1 \<le> k" "k < lim - H \<or> k \<le> H"
  shows "scan_step H hb (round_down H lim k) =
           (round_up H lim (k + 1), if k < H then Some (H - k) else None)"
proof -
  have r: "- (2 ^ 63) \<le> H - k" "H - k < 2 ^ 63" "- (2 ^ 63) \<le> k" "k < 2 ^ 63"
    "- (2 ^ 63) \<le> k + 1" "k + 1 < 2 ^ 63"
    using H k t(2,3) by auto
  have c: "iadd H (- k) = H - k" unfolding iadd_def using r(1,2) by (simp add: wrap64_id)
  have g: "ineg (- k) = k" unfolding ineg_def using r(3,4) by (simp add: wrap64_id)
  have i: "iadd k 1 = k + 1" unfolding iadd_def using r(5,6) by (rule wrap64_id)
  have f: "flip_offset (- k) = k + 1" using k(1) by (simp add: flip_offset_def g i)
  show ?thesis
    using H k t(2,3) unfolding scan_step_def Let_def t(1) round_up_def round_down_def
    by (auto simp: c f)
qed

lemma scan_iter_rounds:
  assumes t: "isub (shl1 hb) 1 = lim" "3 \<le> lim" "lim < 2 ^ 63"
    and H: "0 \<le> H" "H \<le> lim" "H < 2 ^ 62"
    and K: "int K < lim - H \<or> int K \<le> H"
  shows "scan_iter H hb (2 * K) (round_up H lim 1) = (rounds H lim K, round_up H lim (int K + 1))"
  using K
proof (induction K)
  case 0
  then show ?case by simp
next
  case (Suc K)
  then have c: "int K < lim - H \<or> int K \<le> H" by auto
  have ih: "scan_iter H hb (2 * K) (round_up H lim 1) = (rounds H lim K, round_up H lim (int K + 1))"
    by (rule Suc.IH[OF c])
  have k: "1 \<le> int K + 1" "int K + 1 \<le> lim - H \<or> int K + 1 \<le> H"
    "int K + 1 < lim - H \<or> int K + 1 \<le> H"
    using Suc.prems by auto
  have u: "scan_step H hb (round_up H lim (int K + 1)) =
      (round_down H lim (int K + 1), if int K + 1 < lim - H then Some (H + (int K + 1)) else None)"
    by (rule step_up[OF t H k(1,2)])
  have d: "scan_step H hb (round_down H lim (int K + 1)) =
      (round_up H lim (int K + 1 + 1), if int K + 1 < H then Some (H - (int K + 1)) else None)"
    by (rule step_down[OF t H k(1,3)])
  note s1 = scan_iter_Suc_eq[OF ih u]
  note s2 = scan_iter_Suc_eq[OF s1 d]
  have e: "2 * Suc K = Suc (Suc (2 * K))" "int (Suc K) + 1 = int K + 1 + 1" by simp_all
  show ?case unfolding e s2 by (simp add: round_offers_def)
qed

lemma scan_iter_reset:
  assumes "\<not> up R" "\<not> down R" "0 < n"
  shows "scan_iter H hb n R = scan_iter H hb n scan_init"
  using assms(3)
proof (induction n)
  case 0
  then show ?case by simp
next
  case (Suc n)
  show ?case
  proof (cases n)
    case 0
    have "scan_step H hb R = scan_step H hb scan_init"
      using assms(1,2) by (simp add: scan_step_def scan_init_def)
    then show ?thesis by (simp add: 0)
  next
    case (Suc m)
    then have "scan_iter H hb n R = scan_iter H hb n scan_init" using Suc.IH by simp
    then show ?thesis by simp
  qed
qed

lemma scan_iter_cycle:
  assumes t: "isub (shl1 hb) 1 = lim" "3 \<le> lim" "lim < 2 ^ 63"
    and H: "0 \<le> H" "H \<le> lim" "H < 2 ^ 62"
  shows "\<exists>L R. 0 < L \<and> scan_iter H hb L scan_init = (cycle H lim, R) \<and> \<not> up R \<and> \<not> down R"
proof -
  define K where "K = nat (max H (lim - H - 1))"
  have i: "scan_iter H hb 1 scan_init =
      (if 0 < H \<and> H < lim then [H] else [], round_up H lim 1)"
    using step_init[OF t H(1,2)] by simp
  have c: "int K < lim - H \<or> int K \<le> H" using H t(2) by (auto simp: K_def)
  note r = scan_iter_rounds[OF t H c]
  have cy: "cycle H lim = (if 0 < H \<and> H < lim then [H] else []) @ rounds H lim K"
    by (simp add: cycle_def K_def)
  have "scan_iter H hb (1 + 2 * K) scan_init =
      (case scan_iter H hb 1 scan_init of (os1, st1) \<Rightarrow>
        (case scan_iter H hb (2 * K) st1 of (os2, st2) \<Rightarrow> (os1 @ os2, st2)))"
    by (rule scan_iter_add)
  also have "\<dots> = ((if 0 < H \<and> H < lim then [H] else []) @ rounds H lim K, round_up H lim (int K + 1))"
    unfolding i prod.case r by (rule refl)
  finally have a: "scan_iter H hb (1 + 2 * K) scan_init = (cycle H lim, round_up H lim (int K + 1))"
    unfolding cy .
  show ?thesis
  proof (cases "lim - H - 1 < H")
    case True
    then have "int K = H" using H by (simp add: K_def)
    then have "\<not> up (round_up H lim (int K + 1))" "\<not> down (round_up H lim (int K + 1))"
      using True by (simp_all add: round_up_def)
    with a show ?thesis by (intro exI[of _ "1 + 2 * K"] exI[of _ "round_up H lim (int K + 1)"]) simp
  next
    case False
    then have k: "int K + 1 = lim - H" using H t(2) by (simp add: K_def)
    have u: "scan_step H hb (round_up H lim (lim - H)) = (round_down H lim (lim - H), None)"
      using step_up[OF t H, of "lim - H"] False H t(2) by simp
    have b: "scan_iter H hb (Suc (1 + 2 * K)) scan_init = (cycle H lim, round_down H lim (lim - H))"
      using scan_iter_Suc_eq[OF a[unfolded k] u] by simp
    have "\<not> up (round_down H lim (lim - H))" "\<not> down (round_down H lim (lim - H))"
      using False by (simp_all add: round_down_def)
    with b show ?thesis
      by (intro exI[of _ "Suc (1 + 2 * K)"] exI[of _ "round_down H lim (lim - H)"]) simp
  qed
qed

lemma count_round_offers:
  "count_list (round_offers H lim k) x =
     (if x = H + k \<and> k < lim - H then 1 else 0) + (if x = H - k \<and> k < H then 1 else 0)"
  by (simp add: round_offers_def)

lemma count_rounds:
  "count_list (rounds H lim K) x =
     (if 1 \<le> x - H \<and> x - H \<le> int K \<and> x - H < lim - H then 1 else 0) +
     (if 1 \<le> H - x \<and> H - x \<le> int K \<and> H - x < H then 1 else 0)"
proof (induction K)
  case 0
  then show ?case by simp
next
  case (Suc K)
  show ?case unfolding rounds.simps count_list_append Suc.IH count_round_offers
    by auto
qed

lemma count_cycle:
  assumes "3 \<le> lim" "0 \<le> H" "H \<le> lim"
  shows "count_list (cycle H lim) x = (if 0 < x \<and> x < lim then 1 else 0)"
  using assms unfolding cycle_def count_list_append count_rounds
  by auto

lemma scan_iter_two_cycles:
  assumes t: "isub (shl1 hb) 1 = lim" "3 \<le> lim" "lim < 2 ^ 63"
    and H: "0 \<le> H" "H \<le> lim" "H < 2 ^ 62"
  shows "\<exists>L R. 0 < L \<and> scan_iter H hb (L + L) scan_init = (cycle H lim @ cycle H lim, R)
           \<and> \<not> up R \<and> \<not> down R"
proof -
  from scan_iter_cycle[OF t H] obtain L R where
    L: "0 < L" "scan_iter H hb L scan_init = (cycle H lim, R)" "\<not> up R" "\<not> down R"
    by blast
  have "scan_iter H hb L R = (cycle H lim, R)"
    using scan_iter_reset[OF L(3,4,1), of H hb] L(2) by simp
  then have "scan_iter H hb (L + L) scan_init = (cycle H lim @ cycle H lim, R)"
    by (simp add: scan_iter_add L(2))
  with L show ?thesis by blast
qed

lemma scan_iter_prefix:
  "\<exists>more. fst (scan_iter h hb (m + n) st) = fst (scan_iter h hb m st) @ more"
  by (simp add: scan_iter_add split: prod.splits)

lemma scan_iter_take:
  assumes "length (fst (scan_iter h hb m st)) \<ge> l" "length (fst (scan_iter h hb m' st)) \<ge> l"
  shows "take l (fst (scan_iter h hb m st)) = take l (fst (scan_iter h hb m' st))"
proof -
  have *: "take l (fst (scan_iter h hb a st)) = take l (fst (scan_iter h hb (a + d) st))"
    if "length (fst (scan_iter h hb a st)) \<ge> l" for a d
  proof -
    obtain more where "fst (scan_iter h hb (a + d) st) = fst (scan_iter h hb a st) @ more"
      using scan_iter_prefix by blast
    then show ?thesis using that by simp
  qed
  show ?thesis
  proof (cases "m \<le> m'")
    case True
    then obtain d where "m' = m + d" using le_Suc_ex by blast
    then show ?thesis using *[OF assms(1), of d] by simp
  next
    case False
    then obtain d where "m = m' + d" by (metis le_Suc_ex nat_le_linear)
    then show ?thesis using *[OF assms(2), of d] by simp
  qed
qed

lemma set_cycle:
  assumes "3 \<le> lim" "0 \<le> H" "H \<le> lim"
  shows "set (cycle H lim) = {0 <..< lim}"
proof (rule set_eqI)
  fix x
  have "x \<in> set (cycle H lim) \<longleftrightarrow> count_list (cycle H lim) x \<noteq> 0"
    by (simp add: count_list_0_iff)
  then show "x \<in> set (cycle H lim) \<longleftrightarrow> x \<in> {0 <..< lim}"
    using count_cycle[OF assms, of x] by auto
qed

lemma length_cycle:
  assumes "3 \<le> lim" "0 \<le> H" "H \<le> lim"
  shows "length (cycle H lim) = nat (lim - 1)"
proof -
  have "length (cycle H lim) = sum (count_list (cycle H lim)) {0 <..< lim}"
    by (rule sum_count_set[symmetric]) (simp_all add: set_cycle[OF assms])
  also have "\<dots> = sum (\<lambda>x. 1) {0 <..< lim}"
    by (rule sum.cong) (simp_all add: count_cycle[OF assms])
  also have "\<dots> = nat (lim - 1)" by simp
  finally show ?thesis .
qed

subsection \<open>The addresses received follow the iterations of the loop\<close>

lemma scan_trace_same:
  assumes "scan_trace ipnet H x" "run y = run x" "sink y = sink x"
  shows "scan_trace ipnet H y"
  using assms(1) unfolding scan_trace_def assms(2,3) .

lemma scan_trace_past_loop:
  assumes "scan_trace ipnet H x" "sink y = sink x"
    and "(\<exists>e. run y = AwaitQuit e) \<or> (\<exists>e. run y = AtReply e) \<or> run y = Done \<or> run y = Panicked"
  shows "scan_trace ipnet H y"
proof -
  from assms(1,2) have
    "\<exists>m rest. map (mkHost ipnet) (fst (scan_iter H (hostBits ipnet) m scan_init)) = sink y @ rest"
    by (simp add: scan_trace_def)
  moreover from assms(3) have "(case run y of
        Spawned \<Rightarrow> sink y = []
      | AtLoop x \<Rightarrow> fst x = H \<and>
          (\<exists>m os. scan_iter H (hostBits ipnet) m scan_init = (os, snd x) \<and> sink y = map (mkHost ipnet) os)
      | AtSelect x a \<Rightarrow> fst x = H \<and>
          (\<exists>m os n. scan_iter H (hostBits ipnet) m scan_init = (os @ [n], snd x) \<and>
             sink y = map (mkHost ipnet) os \<and> a = mkHost ipnet n)
      | _ \<Rightarrow> True)"
    by auto
  ultimately show ?thesis unfolding scan_trace_def by (rule conjI)
qed

lemma scan_trace_run:
  assumes h: "hostIP_of (scan_ipnet s) = Some H"
    and t: "scan_trace (scan_ipnet s) H x" and pc': "scanSeeder_run s (run x) = Some pc'"
  shows "scan_trace (scan_ipnet s) H (x\<lparr>run := pc'\<rparr>)"
proof -
  define ipnet where "ipnet = scan_ipnet s"
  define hb where "hb = hostBits ipnet"
  note t' = t[folded ipnet_def, unfolded scan_trace_def, folded hb_def]
  from t' have p: "\<exists>m rest. map (mkHost ipnet) (fst (scan_iter H hb m scan_init)) = sink x @ rest"
    by blast
  have goal: "scan_trace ipnet H (x\<lparr>run := pc'\<rparr>)" if
    "case pc' of
        Spawned \<Rightarrow> sink x = []
      | AtLoop z \<Rightarrow> fst z = H \<and>
          (\<exists>m os. scan_iter H hb m scan_init = (os, snd z) \<and> sink x = map (mkHost ipnet) os)
      | AtSelect z a \<Rightarrow> fst z = H \<and>
          (\<exists>m os n. scan_iter H hb m scan_init = (os @ [n], snd z) \<and>
             sink x = map (mkHost ipnet) os \<and> a = mkHost ipnet n)
      | _ \<Rightarrow> True"
    using that p unfolding scan_trace_def hb_def[symmetric] by (cases pc') simp_all
  show ?thesis unfolding ipnet_def[symmetric]
  proof (cases "run x")
    case Spawned
    with pc' h have c: "pc' = AwaitQuit (Some (AddressSpaceTooSmall hb)) \<or> pc' = AtLoop (H, scan_init)"
      by (auto simp: scanSeeder_run_def Let_def hb_def ipnet_def split: if_splits)
    from t' Spawned have e: "sink x = []" by simp
    have "scan_iter H hb 0 scan_init = ([], scan_init) \<and> sink x = map (mkHost ipnet) []"
      using e by simp
    then have i: "\<exists>m os. scan_iter H hb m scan_init = (os, scan_init) \<and> sink x = map (mkHost ipnet) os"
      by blast
    from c show "scan_trace ipnet H (x\<lparr>run := pc'\<rparr>)"
    proof
      assume "pc' = AwaitQuit (Some (AddressSpaceTooSmall hb))"
      then show ?thesis by (intro goal) simp
    next
      assume "pc' = AtLoop (H, scan_init)"
      then show ?thesis using i by (intro goal) simp
    qed
  next
    case (AtLoop z)
    obtain st where z: "z = (H, st)" using t' AtLoop by (cases z) auto
    from t' AtLoop z obtain m os where
      m: "scan_iter H hb m scan_init = (os, st)" "sink x = map (mkHost ipnet) os"
      by auto
    obtain st' nxt where n: "scan_step H hb st = (st', nxt)" by (cases "scan_step H hb st")
    note i = scan_iter_Suc_eq[OF m(1) n]
    show "scan_trace ipnet H (x\<lparr>run := pc'\<rparr>)"
    proof (cases nxt)
      case None
      with pc' AtLoop z n have "pc' = AtLoop (H, st')"
        by (simp add: scanSeeder_run_def hb_def ipnet_def)
      moreover from i None m(2) have
        "\<exists>m os. scan_iter H hb m scan_init = (os, st') \<and> sink x = map (mkHost ipnet) os"
        by (intro exI[of _ "Suc m"] exI[of _ os]) simp
      ultimately show ?thesis by (intro goal) simp
    next
      case (Some v)
      with pc' AtLoop z n have "pc' = AtSelect (H, st') (mkHost ipnet v)"
        by (simp add: scanSeeder_run_def hb_def ipnet_def)
      moreover from i Some m(2) have
        "\<exists>m os n. scan_iter H hb m scan_init = (os @ [n], st') \<and>
             sink x = map (mkHost ipnet) os \<and> mkHost ipnet v = mkHost ipnet n"
        by (intro exI[of _ "Suc m"] exI[of _ os] exI[of _ v]) simp
      ultimately show ?thesis by (intro goal) simp
    qed
  qed (use pc' in \<open>simp_all add: scanSeeder_run_def\<close>)
qed

lemma scan_trace_step:
  assumes h: "hostIP_of (scan_ipnet s) = Some H"
    and t: "scan_trace (scan_ipnet s) H x" and st: "sched (\<lambda>r. scanSeeder_run s) a x = Some y"
  shows "scan_trace (scan_ipnet s) H y"
proof (cases a)
  case (Run r)
  with st obtain pc' where pc': "scanSeeder_run s (run x) = Some pc'" and y: "y = x\<lparr>run := pc'\<rparr>"
    by (auto simp: sched_def split: if_splits)
  show ?thesis unfolding y by (rule scan_trace_run[OF h t pc'])
next
  case SinkRecv
  with st obtain z b where r: "run x = AtSelect z b" and y: "y = x\<lparr>run := AtLoop z, sink := sink x @ [b]\<rparr>"
    by (auto simp: sched_def split: if_splits run_pc.splits)
  from t r obtain m os n where
    m: "fst z = H" "scan_iter H (hostBits (scan_ipnet s)) m scan_init = (os @ [n], snd z)"
       "sink x = map (mkHost (scan_ipnet s)) os" "b = mkHost (scan_ipnet s) n"
    unfolding scan_trace_def by auto
  have 1: "map (mkHost (scan_ipnet s)) (fst (scan_iter H (hostBits (scan_ipnet s)) m scan_init)) = sink y @ []"
    by (simp add: m y)
  have 2: "scan_iter H (hostBits (scan_ipnet s)) m scan_init = (os @ [n], snd z) \<and>
           sink y = map (mkHost (scan_ipnet s)) (os @ [n])"
    by (simp add: m y)
  have 3: "\<exists>m rest. map (mkHost (scan_ipnet s)) (fst (scan_iter H (hostBits (scan_ipnet s)) m scan_init))
      = sink y @ rest"
    using 1 by blast
  have 4: "\<exists>m os. scan_iter H (hostBits (scan_ipnet s)) m scan_init = (os, snd z) \<and>
           sink y = map (mkHost (scan_ipnet s)) os"
    using 2 by blast
  have "run y = AtLoop z" by (simp add: y)
  then show ?thesis unfolding scan_trace_def using 3 4 m(1) by simp
next
  case (PhaseStore v)
  with st have "y = x\<lparr>phase := v\<rparr>" by (auto simp: sched_def split: if_splits)
  then show ?thesis by (intro scan_trace_same[OF t]) simp_all
next
  case CloseCall
  with st have "y = x\<lparr>closer := SendingQuit\<rparr>" by (auto simp: sched_def split: if_splits)
  then show ?thesis by (intro scan_trace_same[OF t]) simp_all
next
  case QuitSync
  with st obtain e where "y = x\<lparr>run := AtReply e, closer := AwaitingReply\<rparr>"
    by (auto simp: sched_def split: if_splits run_pc.splits)
  then show ?thesis by (intro scan_trace_past_loop[OF t]) simp_all
next
  case ReplySync
  with st obtain e where "y = x\<lparr>run := Done, closer := Returned e\<rparr>"
    by (auto simp: sched_def split: if_splits run_pc.splits)
  then show ?thesis by (intro scan_trace_past_loop[OF t]) simp_all
qed

lemma scan_exec_trace:
  assumes h: "hostIP_of (scan_ipnet s) = Some H" and e: "scan_exec s ph acts = Some c"
  shows "scan_trace (scan_ipnet s) H c"
  using e unfolding scan_exec_def
proof (rule exec_invariant)
  have "map (mkHost (scan_ipnet s)) (fst (scan_iter H (hostBits (scan_ipnet s)) 0 scan_init)) = [] @ []"
    by simp
  then show "scan_trace (scan_ipnet s) H (fst (scanSeeder_Start s ph))"
    unfolding scan_trace_def scanSeeder_Start_def by simp
next
  fix a x y
  assume "scan_trace (scan_ipnet s) H x" "sched (\<lambda>r. scanSeeder_run s) a x = Some y"
  then show "scan_trace (scan_ipnet s) H y" by (rule scan_trace_step[OF h])
qed

subsection \<open>Two cycles of the scan, for 2 to 63 host bits\<close>

lemma scan_first_two_cycles:
  assumes hb: "2 \<le> hostBits ipnet" "hostBits ipnet \<le> 63"
    and h: "hostIP_of ipnet = Some H"
    and e: "scan_exec \<lparr>scan_ipnet = ipnet\<rparr> ph acts = Some c"
    and l: "2 * nat (2 ^ nat (hostBits ipnet) - 2) \<le> length (sink c)"
  shows "take (2 * nat (2 ^ nat (hostBits ipnet) - 2)) (sink c) =
           map (mkHost ipnet) (cycle H (2 ^ nat (hostBits ipnet) - 1) @ cycle H (2 ^ nat (hostBits ipnet) - 1))"
proof -
  define lim :: int where "lim = 2 ^ nat (hostBits ipnet) - 1"
  define n where "n = 2 * nat (2 ^ nat (hostBits ipnet) - 2)"
  have t: "isub (shl1 (hostBits ipnet)) 1 = lim" "3 \<le> lim" "lim < 2 ^ 63"
    using bound_valid[OF hb] pow2_ge4[OF hb(1)] pow2_le_63[of "hostBits ipnet"] hb
    by (simp_all add: lim_def)
  have H: "0 \<le> H" "H \<le> lim" "H < 2 ^ 62"
    using hostIP_of_bounds[OF h hb(2)] by (simp_all add: lim_def)
  define CC where "CC = cycle H lim @ cycle H lim"
  from scan_iter_two_cycles[OF t H] obtain L R where
    c2: "scan_iter H (hostBits ipnet) (L + L) scan_init = (CC, R)"
    unfolding CC_def by blast
  have len: "length CC = n"
    using length_cycle[OF t(2) H(1,2)] by (simp add: n_def lim_def CC_def)
  from scan_exec_trace[of "\<lparr>scan_ipnet = ipnet\<rparr>" H ph acts c] h e obtain m rest where
    m: "map (mkHost ipnet) (fst (scan_iter H (hostBits ipnet) m scan_init)) = sink c @ rest"
    unfolding scan_trace_def by auto
  then have "length (fst (scan_iter H (hostBits ipnet) m scan_init)) = length (sink c @ rest)"
    by (metis length_map)
  then have lm: "n \<le> length (fst (scan_iter H (hostBits ipnet) m scan_init))"
    using l by (simp add: n_def)
  have "n \<le> length (fst (scan_iter H (hostBits ipnet) (L + L) scan_init))"
    by (simp add: c2 len)
  from scan_iter_take[OF lm this]
  have "take n (fst (scan_iter H (hostBits ipnet) m scan_init)) = CC"
    by (simp add: c2 len)
  then have "map (mkHost ipnet) CC
      = take n (map (mkHost ipnet) (fst (scan_iter H (hostBits ipnet) m scan_init)))"
    by (simp only: take_map)
  also have "\<dots> = take n (sink c)" unfolding m using l by (simp add: n_def)
  finally show ?thesis unfolding n_def lim_def CC_def by simp
qed

lemma scan_two_cycles:
  assumes hb: "2 \<le> hostBits ipnet" "hostBits ipnet \<le> 63"
    and wf: "IP_Mask (IP ipnet) (Mask ipnet) \<noteq> []"
    and e: "scan_exec \<lparr>scan_ipnet = ipnet\<rparr> ph acts = Some c"
    and l: "2 * nat (2 ^ nat (hostBits ipnet) - 2) \<le> length (sink c)"
  shows "card (set (take (2 * nat (2 ^ nat (hostBits ipnet) - 2)) (sink c))) = nat (2 ^ nat (hostBits ipnet) - 2)"
    and "\<forall>a \<in> set (take (2 * nat (2 ^ nat (hostBits ipnet) - 2)) (sink c)).
           count_list (take (2 * nat (2 ^ nat (hostBits ipnet) - 2)) (sink c)) a = 2"
    and "set (take (2 * nat (2 ^ nat (hostBits ipnet) - 2)) (sink c))
           = mkHost ipnet ` {0 <..< 2 ^ nat (hostBits ipnet) - 1}"
proof -
  define lim :: int where "lim = 2 ^ nat (hostBits ipnet) - 1"
  define E where "E = take (2 * nat (2 ^ nat (hostBits ipnet) - 2)) (sink c)"
  obtain H where h: "hostIP_of ipnet = Some H" using hostIP_of_total[OF wf] by blast
  have t: "3 \<le> lim" using pow2_ge4[OF hb(1)] by (simp add: lim_def)
  have H: "0 \<le> H" "H \<le> lim" using hostIP_of_bounds[OF h hb(2)] by (simp_all add: lim_def)
  have E: "E = map (mkHost ipnet) (cycle H lim @ cycle H lim)"
    unfolding E_def lim_def by (rule scan_first_two_cycles[OF hb h e l])
  have s: "set (cycle H lim @ cycle H lim) = {0 <..< lim}" by (simp add: set_cycle[OF t H])
  have i: "inj_on (mkHost ipnet) {0 <..< lim}" unfolding lim_def by (rule mkHost_inj[OF wf])
  have sE: "set E = mkHost ipnet ` {0 <..< lim}" unfolding E by (simp only: set_map s)
  then show "set (take (2 * nat (2 ^ nat (hostBits ipnet) - 2)) (sink c))
           = mkHost ipnet ` {0 <..< 2 ^ nat (hostBits ipnet) - 1}"
    unfolding E_def lim_def .
  have "card (set E) = card {0 <..< lim}" unfolding sE using i by (rule card_image)
  then show "card (set (take (2 * nat (2 ^ nat (hostBits ipnet) - 2)) (sink c))) = nat (2 ^ nat (hostBits ipnet) - 2)"
    unfolding E_def by (simp add: lim_def)
  have "count_list E a = 2" if "a \<in> set E" for a
  proof -
    from that sE obtain x where x: "x \<in> {0 <..< lim}" "a = mkHost ipnet x" by blast
    have "count_list E (mkHost ipnet x) = count_list (cycle H lim @ cycle H lim) x"
      unfolding E using i x(1) by (intro count_list_inj_map) (simp_all only: s)
    also have "\<dots> = 2" using x(1) by (simp add: count_cycle[OF t H])
    finally show ?thesis by (simp add: x(2))
  qed
  then show "\<forall>a \<in> set (take (2 * nat (2 ^ nat (hostBits ipnet) - 2)) (sink c)).
           count_list (take (2 * nat (2 ^ nat (hostBits ipnet) - 2)) (sink c)) a = 2"
    unfolding E_def by blast
qed

lemma scan_exec_two_cycles30:
  "scan_exec \<lparr>scan_ipnet = ipv4_net30\<rparr> 0 sched_two_cycles30 = Some after_two_cycles30"
  by code_simp

lemma scan_two_cycles_net30:
  "card (set (take 4 (sink after_two_cycles30))) = 2 \<and>
   count_list (take 4 (sink after_two_cycles30)) [192, 168, 0, 101] = 2 \<and>
   count_list (take 4 (sink after_two_cycles30)) [192, 168, 0, 102] = 2"
proof -
  have hb: "2 \<le> hostBits ipv4_net30" "hostBits ipv4_net30 \<le> 63" by (simp_all add: hostBits_ipv4_net30)
  have wf: "IP_Mask (IP ipv4_net30) (Mask ipv4_net30) \<noteq> []" by code_simp
  have n: "2 * nat (2 ^ nat (hostBits ipv4_net30) - 2) = 4" by (simp add: hostBits_ipv4_net30)
  have l: "2 * nat (2 ^ nat (hostBits ipv4_net30) - 2) \<le> length (sink after_two_cycles30)"
    unfolding n by (simp add: after_two_cycles30_def)
  note t = scan_two_cycles[OF hb wf scan_exec_two_cycles30 l, unfolded n]
  have m: "[192, 168, 0, 101] \<in> set (take 4 (sink after_two_cycles30))"
    "[192, 168, 0, 102] \<in> set (take 4 (sink after_two_cycles30))"
    by (simp_all add: after_two_cycles30_def)
  from t(1) t(2) m show ?thesis by (simp add: hostBits_ipv4_net30)
qed

subsection \<open>Closing, for up to 63 host bits\<close>

lemma scan_offers_unbounded:
  assumes L: "0 < L" "scan_iter H hb L scan_init = (C, R)" "\<not> up R" "\<not> down R" "C \<noteq> []"
  shows "\<exists>M os R'. scan_iter H hb M scan_init = (os, R') \<and> \<not> up R' \<and> \<not> down R' \<and> q < length os"
proof (induction q)
  case 0
  from L show ?case by (intro exI[of _ L] exI[of _ C] exI[of _ R]) simp
next
  case (Suc q)
  then obtain M os R' where r: "scan_iter H hb M scan_init = (os, R')" "\<not> up R'" "\<not> down R'"
    "q < length os" by blast
  have "scan_iter H hb L R' = (C, R)" using scan_iter_reset[OF r(2,3) L(1), of H hb] L(2) by simp
  then have "scan_iter H hb (M + L) scan_init = (os @ C, R)"
    by (simp only: scan_iter_add r(1) prod.case)
  moreover have "Suc q < length (os @ C)" using r(4) L(5) by (cases C) simp_all
  ultimately show ?case using L(3,4) by blast
qed

lemma scan_offers_continue:
  assumes t: "isub (shl1 hb) 1 = lim" "3 \<le> lim" "lim < 2 ^ 63"
    and H: "0 \<le> H" "H \<le> lim" "H < 2 ^ 62"
    and m: "scan_iter H hb m scan_init = (os, st)"
  shows "\<exists>d os' st'. scan_iter H hb d st = (os', st') \<and> os' \<noteq> []"
proof -
  from scan_iter_cycle[OF t H] obtain L R where
    L: "0 < L" "scan_iter H hb L scan_init = (cycle H lim, R)" "\<not> up R" "\<not> down R" by blast
  have "length (cycle H lim) \<noteq> 0" using length_cycle[OF t(2) H(1,2)] t(2) by simp
  then have c: "cycle H lim \<noteq> []" by simp
  from scan_offers_unbounded[OF L c, of "length os"] obtain M os2 R' where
    r: "scan_iter H hb M scan_init = (os2, R')" "length os < length os2" by blast
  have "m < M"
  proof (rule ccontr)
    assume "\<not> m < M"
    then obtain d where "m = M + d" by (metis le_Suc_ex not_less)
    then obtain more where "fst (scan_iter H hb m scan_init) = fst (scan_iter H hb M scan_init) @ more"
      using scan_iter_prefix by blast
    with r m show False by simp
  qed
  then obtain d where d: "M = m + d" using less_imp_add_positive by blast
  obtain os' st' where s: "scan_iter H hb d st = (os', st')" by (cases "scan_iter H hb d st")
  have "fst (scan_iter H hb (m + d) scan_init) = os @ os'"
    by (simp only: scan_iter_add m s prod.case fst_conv)
  with r have "os' \<noteq> []" unfolding d by auto
  with s show ?thesis by blast
qed

lemma run_skips:
  assumes "scan_iter H (hostBits (scan_ipnet s)) d st = ([], st')" "run c = AtLoop (H, st)"
  shows "exec (\<lambda>r. scanSeeder_run s) (replicate d (Run 0)) c = Some (c\<lparr>run := AtLoop (H, st')\<rparr>)"
  using assms(1)
proof (induction d arbitrary: st')
  case 0
  then show ?case using assms(2) by simp
next
  case (Suc d)
  obtain os1 st1 where i: "scan_iter H (hostBits (scan_ipnet s)) d st = (os1, st1)"
    by (cases "scan_iter H (hostBits (scan_ipnet s)) d st")
  obtain st2 nxt where n: "scan_step H (hostBits (scan_ipnet s)) st1 = (st2, nxt)"
    by (cases "scan_step H (hostBits (scan_ipnet s)) st1")
  from scan_iter_Suc_eq[OF i n] Suc.prems have e: "os1 = []" "nxt = None" "st2 = st'"
    by (cases nxt; simp)+
  have x: "exec (\<lambda>r. scanSeeder_run s) (replicate d (Run 0)) c = Some (c\<lparr>run := AtLoop (H, st1)\<rparr>)"
    using i e(1) by (intro Suc.IH) simp
  have y: "sched (\<lambda>r. scanSeeder_run s) (Run 0) (c\<lparr>run := AtLoop (H, st1)\<rparr>)
      = Some (c\<lparr>run := AtLoop (H, st')\<rparr>)"
    using n e by (simp add: sched_def scanSeeder_run_def)
  have "replicate (Suc d) (Run 0) = replicate d (Run 0) @ [Run 0]"
    by (simp add: replicate_append_same)
  then show ?case using exec_snoc[OF x y] by simp
qed

lemma run_until_offer:
  assumes "scan_iter H (hostBits (scan_ipnet s)) d st = (os, st')" "os \<noteq> []" "run c = AtLoop (H, st)"
  shows "\<exists>k z a. exec (\<lambda>r. scanSeeder_run s) (replicate k (Run 0)) c = Some (c\<lparr>run := AtSelect z a\<rparr>)"
  using assms(1,2)
proof (induction d arbitrary: os st')
  case 0
  then show ?case by simp
next
  case (Suc d)
  obtain os1 st1 where i: "scan_iter H (hostBits (scan_ipnet s)) d st = (os1, st1)"
    by (cases "scan_iter H (hostBits (scan_ipnet s)) d st")
  show ?case
  proof (cases "os1 = []")
    case False
    from Suc.IH[OF i False] show ?thesis .
  next
    case True
    obtain st2 nxt where n: "scan_step H (hostBits (scan_ipnet s)) st1 = (st2, nxt)"
      by (cases "scan_step H (hostBits (scan_ipnet s)) st1")
    from scan_iter_Suc_eq[OF i n] Suc.prems True obtain v where v: "nxt = Some v"
      by (cases nxt) simp_all
    have x: "exec (\<lambda>r. scanSeeder_run s) (replicate d (Run 0)) c = Some (c\<lparr>run := AtLoop (H, st1)\<rparr>)"
      using i True assms(3) by (intro run_skips) simp_all
    have y: "sched (\<lambda>r. scanSeeder_run s) (Run 0) (c\<lparr>run := AtLoop (H, st1)\<rparr>)
      = Some (c\<lparr>run := AtSelect (H, st2) (mkHost (scan_ipnet s) v)\<rparr>)"
      using n v by (simp add: sched_def scanSeeder_run_def)
    have "replicate (Suc d) (Run 0) = replicate d (Run 0) @ [Run 0]"
      by (simp add: replicate_append_same)
    with exec_snoc[OF x y] have
      "exec (\<lambda>r. scanSeeder_run s) (replicate (Suc d) (Run 0)) c
         = Some (c\<lparr>run := AtSelect (H, st2) (mkHost (scan_ipnet s) v)\<rparr>)" by simp
    then show ?thesis by blast
  qed
qed

lemma close_from_select:
  assumes "run c = AtSelect z a" "closer c = SendingQuit"
  shows "exec body [QuitSync, ReplySync] c = Some (c\<lparr>run := Done, closer := Returned None\<rparr>)"
  using assms by (simp add: sched_def)

lemma scan_never_panics:
  assumes h: "hostIP_of (scan_ipnet s) = Some H" and e: "scan_exec s ph acts = Some c"
  shows "run c \<noteq> Panicked"
  using e unfolding scan_exec_def
proof (rule exec_invariant)
  show "run (fst (scanSeeder_Start s ph)) \<noteq> Panicked" by (simp add: scanSeeder_Start_def)
next
  fix a x y
  assume "run x \<noteq> Panicked" "sched (\<lambda>r. scanSeeder_run s) a x = Some y"
  then show "run y \<noteq> Panicked"
    using h
    by (cases a)
       (auto simp: sched_def scanSeeder_run_def Let_def split: if_splits run_pc.splits option.splits prod.splits)
qed

lemma scan_close_returns_pending:
  assumes hb: "2 \<le> hostBits (scan_ipnet s)" "hostBits (scan_ipnet s) \<le> 63"
    and h: "hostIP_of (scan_ipnet s) = Some H"
    and e: "scan_exec s ph acts = Some c" and q: "closer c = SendingQuit"
  shows "\<exists>more c'. exec (\<lambda>r. scanSeeder_run s) more c = Some c' \<and> closer c' = Returned None"
proof -
  define body where "body = (\<lambda>r :: int. scanSeeder_run s)"
  define lim :: int where "lim = 2 ^ nat (hostBits (scan_ipnet s)) - 1"
  have t: "isub (shl1 (hostBits (scan_ipnet s))) 1 = lim" "3 \<le> lim" "lim < 2 ^ 63"
    using bound_valid[OF hb] pow2_ge4[OF hb(1)] pow2_le_63[of "hostBits (scan_ipnet s)"] hb
    by (simp_all add: lim_def)
  have H: "0 \<le> H" "H \<le> lim" "H < 2 ^ 62"
    using hostIP_of_bounds[OF h hb(2)] by (simp_all add: lim_def)
  have sel: "\<exists>more c'. exec body more x = Some c' \<and> closer c' = Returned None"
    if "run x = AtSelect z a" "closer x = SendingQuit" for x z a
    using close_from_select[OF that, of body] by (intro exI[of _ "[QuitSync, ReplySync]"]) simp
  have loop: "\<exists>more c'. exec body more x = Some c' \<and> closer c' = Returned None"
    if x: "run x = AtLoop (H, st)" "closer x = SendingQuit"
      and m: "scan_iter H (hostBits (scan_ipnet s)) m scan_init = (os, st)" for x st m os
  proof -
    from scan_offers_continue[OF t H m] obtain d os' st' where
      "scan_iter H (hostBits (scan_ipnet s)) d st = (os', st')" "os' \<noteq> []" by blast
    from run_until_offer[OF this x(1)] obtain k z a where
      k: "exec body (replicate k (Run 0)) x = Some (x\<lparr>run := AtSelect z a\<rparr>)"
      unfolding body_def by blast
    from sel[of "x\<lparr>run := AtSelect z a\<rparr>" z a] x(2) obtain more c' where
      "exec body more (x\<lparr>run := AtSelect z a\<rparr>) = Some c'" "closer c' = Returned None" by auto
    with exec_then[OF k this(1)] show ?thesis by blast
  qed
  note ok = scan_protocol_ok[OF e]
  note tr = scan_exec_trace[OF h e]
  note np = scan_never_panics[OF h e]
  have ?thesis if "run c = Spawned"
  proof -
    have s: "sched body (Run 0) c = Some (c\<lparr>run := AtLoop (H, scan_init)\<rparr>)"
      using that h hb by (simp add: sched_def body_def scanSeeder_run_def)
    have "scan_iter H (hostBits (scan_ipnet s)) 0 scan_init = ([], scan_init)" by simp
    from loop[OF _ _ this, of "c\<lparr>run := AtLoop (H, scan_init)\<rparr>"] q obtain more c' where
      m: "exec body more (c\<lparr>run := AtLoop (H, scan_init)\<rparr>) = Some c'" "closer c' = Returned None"
      by auto
    have "exec body (Run 0 # more) c = Some c'" using s m(1) by simp
    with m(2) show ?thesis unfolding body_def by blast
  qed
  moreover have ?thesis if "run c = AtLoop z" for z
  proof -
    from tr that obtain m os where "fst z = H" "scan_iter H (hostBits (scan_ipnet s)) m scan_init = (os, snd z)"
      unfolding scan_trace_def by auto
    with that have "run c = AtLoop (H, snd z)" by (cases z) simp
    from loop[OF this q \<open>scan_iter H (hostBits (scan_ipnet s)) m scan_init = (os, snd z)\<close>]
    show ?thesis unfolding body_def .
  qed
  moreover have ?thesis if "run c = AtSelect z a" for z a
    using sel[OF that q] unfolding body_def .
  moreover have "run c = Spawned \<or> (\<exists>z. run c = AtLoop z) \<or> (\<exists>z a. run c = AtSelect z a)"
    using ok q np hb(1) by (cases "run c") (auto simp: protocol_ok_def)
  ultimately show ?thesis by blast
qed

lemma scan_close_returns:
  assumes hb: "2 \<le> hostBits (scan_ipnet s)" "hostBits (scan_ipnet s) \<le> 63"
    and h: "hostIP_of (scan_ipnet s) = Some H"
    and e: "scan_exec s ph acts = Some c" and q: "closer c = NotCalled \<or> closer c = SendingQuit"
  shows "\<exists>more c'. exec (\<lambda>r. scanSeeder_run s) more c = Some c' \<and> closer c' = Returned None"
  using q
proof
  assume "closer c = SendingQuit"
  then show ?thesis by (rule scan_close_returns_pending[OF hb h e])
next
  assume n: "closer c = NotCalled"
  have np: "run c \<noteq> Panicked" by (rule scan_never_panics[OF h e])
  have s: "sched (\<lambda>r. scanSeeder_run s) CloseCall c = Some (c\<lparr>closer := SendingQuit\<rparr>)"
    using n np by (simp add: sched_def)
  have "scan_exec s ph (acts @ [CloseCall]) = Some (c\<lparr>closer := SendingQuit\<rparr>)"
    using e s unfolding scan_exec_def by (rule exec_snoc)
  from scan_close_returns_pending[OF hb h this] obtain more c' where
    m: "exec (\<lambda>r. scanSeeder_run s) more (c\<lparr>closer := SendingQuit\<rparr>) = Some c'" "closer c' = Returned None"
    by auto
  have "exec (\<lambda>r. scanSeeder_run s) (CloseCall # more) c = Some c'" using s m(1) by simp
  with m(2) show ?thesis by blast
qed

lemma probe_never_panics:
  assumes hb: "hostBits (probe_ipnet s) \<le> 63" and e: "probe_exec s ph acts = Some c"
  shows "run c \<noteq> Panicked"
proof -
  have "protocol_ok (hostBits (probe_ipnet s)) c \<and> run c \<noteq> Panicked"
    using e unfolding probe_exec_def
  proof (rule exec_invariant)
    show "protocol_ok (hostBits (probe_ipnet s)) (fst (probeSeeder_Start s ph)) \<and>
          run (fst (probeSeeder_Start s ph)) \<noteq> Panicked"
      by (simp add: probeSeeder_Start_def protocol_ok_def)
  next
    fix a x y
    assume x: "protocol_ok (hostBits (probe_ipnet s)) x \<and> run x \<noteq> Panicked"
      and s: "sched (probeSeeder_run s) a x = Some y"
    have ok: "protocol_ok (hostBits (probe_ipnet s)) y"
      using x s by (intro protocol_ok_step[OF probe_body_ok, of s x a y]) simp_all
    have "run y \<noteq> Panicked"
    proof (cases a)
      case (Run r)
      with s obtain pc' where p: "probeSeeder_run s r (run x) = Some pc'" "y = x\<lparr>run := pc'\<rparr>"
        by (auto simp: sched_def split: if_splits)
      have "pc' \<noteq> Panicked"
      proof (cases "run x")
        case (AtLoop u)
        with x have "2 \<le> hostBits (probe_ipnet s)" by (simp add: protocol_ok_def)
        from probe_draw_valid[OF this hb, of r] obtain v where
          "probe_draw (hostBits (probe_ipnet s)) r = Some v" by auto
        with p(1) AtLoop show ?thesis by (auto simp: probeSeeder_run_def)
      qed (use p(1) in \<open>auto simp: probeSeeder_run_def Let_def split: if_splits\<close>)
      then show ?thesis by (simp add: p(2))
    qed (use x s in \<open>auto simp: sched_def split: if_splits run_pc.splits\<close>)
    with ok show "protocol_ok (hostBits (probe_ipnet s)) y \<and> run y \<noteq> Panicked" by simp
  qed
  then show ?thesis by simp
qed

lemma probe_close_returns:
  assumes hb: "2 \<le> hostBits (probe_ipnet s)" "hostBits (probe_ipnet s) \<le> 63"
    and e: "probe_exec s ph acts = Some c" and q: "closer c = NotCalled \<or> closer c = SendingQuit"
  shows "\<exists>more c'. exec (probeSeeder_run s) more c = Some c' \<and> closer c' = Returned None"
proof -
  note ok = probe_protocol_ok[OF e]
  note np = probe_never_panics[OF hb(2) e]
  define c1 where "c1 = c\<lparr>closer := SendingQuit\<rparr>"
  have 1: "\<exists>xs. exec (probeSeeder_run s) xs c = Some c1"
  proof (cases "closer c = NotCalled")
    case True
    then have "exec (probeSeeder_run s) [CloseCall] c = Some c1"
      using np by (simp add: sched_def c1_def)
    then show ?thesis by blast
  next
    case False
    with q have "c1 = c" by (simp add: c1_def)
    then have "exec (probeSeeder_run s) [] c = Some c1" by simp
    then show ?thesis by blast
  qed
  have r: "run c = Spawned \<or> (\<exists>z. run c = AtLoop z) \<or> (\<exists>z a. run c = AtSelect z a)"
    using ok q np hb(1) by (cases "run c") (auto simp: protocol_ok_def)
  obtain v where v: "probe_draw (hostBits (probe_ipnet s)) 0 = Some v"
    using probe_draw_valid[OF hb, of 0] by auto
  have 2: "\<exists>ys z a. exec (probeSeeder_run s) ys c1 = Some (c1\<lparr>run := AtSelect z a\<rparr>)"
    using r
  proof (elim disjE exE)
    assume "run c = Spawned"
    then have "exec (probeSeeder_run s) [Run 0, Run 0] c1
        = Some (c1\<lparr>run := AtSelect () (mkHost (probe_ipnet s) v)\<rparr>)"
      using hb(1) v by (simp add: sched_def c1_def probeSeeder_run_def)
    then show ?thesis by blast
  next
    fix z assume "run c = AtLoop z"
    then have "exec (probeSeeder_run s) [Run 0] c1
        = Some (c1\<lparr>run := AtSelect z (mkHost (probe_ipnet s) v)\<rparr>)"
      using v by (simp add: sched_def c1_def probeSeeder_run_def)
    then show ?thesis by blast
  next
    fix z a assume "run c = AtSelect z a"
    then have "exec (probeSeeder_run s) [] c1 = Some (c1\<lparr>run := AtSelect z a\<rparr>)"
      by (simp add: c1_def)
    then show ?thesis by blast
  qed
  from 1 obtain xs where xs: "exec (probeSeeder_run s) xs c = Some c1" by blast
  from 2 obtain ys z a where ys: "exec (probeSeeder_run s) ys c1 = Some (c1\<lparr>run := AtSelect z a\<rparr>)"
    by blast
  have 3: "exec (probeSeeder_run s) [QuitSync, ReplySync] (c1\<lparr>run := AtSelect z a\<rparr>)
      = Some (c1\<lparr>run := AtSelect z a\<rparr>\<lparr>run := Done, closer := Returned None\<rparr>)"
    by (rule close_from_select) (simp_all add: c1_def)
  from exec_then[OF exec_then[OF xs ys] 3] show ?thesis
    by (intro exI[of _ "(xs @ ys) @ [QuitSync, ReplySync]"]
        exI[of _ "c1\<lparr>run := AtSelect z a\<rparr>\<lparr>run := Done, closer := Returned None\<rparr>"]) simp
qed

lemma too_small_close_returns:
  assumes hb: "hostBits ipnet < 2" and q: "closer c = NotCalled \<or> closer c = SendingQuit"
  shows "hostIP_of ipnet \<noteq> None \<longrightarrow> scan_exec \<lparr>scan_ipnet = ipnet\<rparr> ph acts = Some c \<longrightarrow>
           sink c = [] \<and> (\<exists>more c'. exec (\<lambda>r. scanSeeder_run \<lparr>scan_ipnet = ipnet\<rparr>) more c = Some c' \<and>
              sink c' = [] \<and> closer c' = Returned (Some (AddressSpaceTooSmall (hostBits ipnet))))"
proof (intro impI)
  assume h: "hostIP_of ipnet \<noteq> None" and e: "scan_exec \<lparr>scan_ipnet = ipnet\<rparr> ph acts = Some c"
  define s where "s = \<lparr>scan_ipnet = ipnet\<rparr>"
  define err where "err = Some (AddressSpaceTooSmall (hostBits ipnet))"
  from h obtain H where H: "hostIP_of (scan_ipnet s) = Some H" by (auto simp: s_def)
  note ok = scan_protocol_ok[OF e[folded s_def]]
  note np = scan_never_panics[OF H e[folded s_def]]
  have z: "sink c = []" using ok hb by (simp add: protocol_ok_def s_def)
  have r: "run c = Spawned \<or> run c = AwaitQuit err"
    using ok q np hb by (cases "run c") (auto simp: protocol_ok_def s_def err_of_def err_def)
  define c1 where "c1 = c\<lparr>closer := SendingQuit\<rparr>"
  have 1: "\<exists>xs. exec (\<lambda>r. scanSeeder_run s) xs c = Some c1"
  proof (cases "closer c = NotCalled")
    case True
    then have "exec (\<lambda>r. scanSeeder_run s) [CloseCall] c = Some c1"
      using np by (simp add: sched_def c1_def)
    then show ?thesis by blast
  next
    case False
    with q have "c1 = c" by (simp add: c1_def)
    then have "exec (\<lambda>r. scanSeeder_run s) [] c = Some c1" by simp
    then show ?thesis by blast
  qed
  have 2: "\<exists>ys. exec (\<lambda>r. scanSeeder_run s) ys c1 = Some (c1\<lparr>run := AwaitQuit err\<rparr>)"
    using r
  proof
    assume "run c = Spawned"
    then have "exec (\<lambda>r. scanSeeder_run s) [Run 0] c1 = Some (c1\<lparr>run := AwaitQuit err\<rparr>)"
      using hb H by (simp add: sched_def c1_def scanSeeder_run_def s_def err_def)
    then show ?thesis by blast
  next
    assume "run c = AwaitQuit err"
    then have "exec (\<lambda>r. scanSeeder_run s) [] c1 = Some (c1\<lparr>run := AwaitQuit err\<rparr>)"
      by (simp add: c1_def)
    then show ?thesis by blast
  qed
  from 1 obtain xs where xs: "exec (\<lambda>r. scanSeeder_run s) xs c = Some c1" by blast
  from 2 obtain ys where ys: "exec (\<lambda>r. scanSeeder_run s) ys c1 = Some (c1\<lparr>run := AwaitQuit err\<rparr>)"
    by blast
  have 3: "exec (\<lambda>r. scanSeeder_run s) [QuitSync, ReplySync] (c1\<lparr>run := AwaitQuit err\<rparr>)
      = Some (c1\<lparr>run := Done, closer := Returned err\<rparr>)"
    by (simp add: sched_def c1_def)
  from exec_then[OF exec_then[OF xs ys] 3] z
  have "exec (\<lambda>r. scanSeeder_run s) ((xs @ ys) @ [QuitSync, ReplySync]) c = Some (c1\<lparr>run := Done, closer := Returned err\<rparr>)
     \<and> sink (c1\<lparr>run := Done, closer := Returned err\<rparr>) = []
     \<and> closer (c1\<lparr>run := Done, closer := Returned err\<rparr>) = Returned err"
    by (simp add: c1_def)
  then have "\<exists>more c'. exec (\<lambda>r. scanSeeder_run s) more c = Some c' \<and> sink c' = [] \<and> closer c' = Returned err"
    by blast
  with z show "sink c = [] \<and> (\<exists>more c'. exec (\<lambda>r. scanSeeder_run \<lparr>scan_ipnet = ipnet\<rparr>) more c = Some c' \<and>
              sink c' = [] \<and> closer c' = Returned (Some (AddressSpaceTooSmall (hostBits ipnet))))"
    unfolding s_def err_def by simp
qed

lemma too_small_close_returns_probe:
  assumes hb: "hostBits ipnet < 2" and q: "closer c = NotCalled \<or> closer c = SendingQuit"
    and e: "probe_exec \<lparr>probe_ipnet = ipnet\<rparr> ph acts = Some c"
  shows "sink c = [] \<and> (\<exists>more c'. exec (probeSeeder_run \<lparr>probe_ipnet = ipnet\<rparr>) more c = Some c' \<and>
              sink c' = [] \<and> closer c' = Returned (Some (AddressSpaceTooSmall (hostBits ipnet))))"
proof -
  define s where "s = \<lparr>probe_ipnet = ipnet\<rparr>"
  define err where "err = Some (AddressSpaceTooSmall (hostBits ipnet))"
  note ok = probe_protocol_ok[OF e[folded s_def]]
  have np: "run c \<noteq> Panicked"
    using hb by (intro probe_never_panics[OF _ e]) simp
  have z: "sink c = []" using ok hb by (simp add: protocol_ok_def s_def)
  have r: "run c = Spawned \<or> run c = AwaitQuit err"
    using ok q np hb by (cases "run c") (auto simp: protocol_ok_def s_def err_of_def err_def)
  define c1 where "c1 = c\<lparr>closer := SendingQuit\<rparr>"
  have 1: "\<exists>xs. exec (probeSeeder_run s) xs c = Some c1"
  proof (cases "closer c = NotCalled")
    case True
    then have "exec (probeSeeder_run s) [CloseCall] c = Some c1"
      using np by (simp add: sched_def c1_def)
    then show ?thesis by blast
  next
    case False
    with q have "c1 = c" by (simp add: c1_def)
    then have "exec (probeSeeder_run s) [] c = Some c1" by simp
    then show ?thesis by blast
  qed
  have 2: "\<exists>ys. exec (probeSeeder_run s) ys c1 = Some (c1\<lparr>run := AwaitQuit err\<rparr>)"
    using r
  proof
    assume "run c = Spawned"
    then have "exec (probeSeeder_run s) [Run 0] c1 = Some (c1\<lparr>run := AwaitQuit err\<rparr>)"
      using hb by (simp add: sched_def c1_def probeSeeder_run_def s_def err_def)
    then show ?thesis by blast
  next
    assume "run c = AwaitQuit err"
    then have "exec (probeSeeder_run s) [] c1 = Some (c1\<lparr>run := AwaitQuit err\<rparr>)"
      by (simp add: c1_def)
    then show ?thesis by blast
  qed
  from 1 obtain xs where xs: "exec (probeSeeder_run s) xs c = Some c1" by blast
  from 2 obtain ys where ys: "exec (probeSeeder_run s) ys c1 = Some (c1\<lparr>run := AwaitQuit err\<rparr>)"
    by blast
  have 3: "exec (probeSeeder_run s) [QuitSync, ReplySync] (c1\<lparr>run := AwaitQuit err\<rparr>)
      = Some (c1\<lparr>run := Done, closer := Returned err\<rparr>)"
    by (simp add: sched_def c1_def)
  from exec_then[OF exec_then[OF xs ys] 3] z
  have "exec (probeSeeder_run s) ((xs @ ys) @ [QuitSync, ReplySync]) c = Some (c1\<lparr>run := Done, closer := Returned err\<rparr>)
     \<and> sink (c1\<lparr>run := Done, closer := Returned err\<rparr>) = []
     \<and> closer (c1\<lparr>run := Done, closer := Returned err\<rparr>) = Returned err"
    by (simp add: c1_def)
  then have "\<exists>more c'. exec (probeSeeder_run s) more c = Some c' \<and> sink c' = [] \<and> closer c' = Returned err"
    by blast
  with z show ?thesis unfolding s_def err_def by simp
qed

subsection \<open>Networks with 64 host bits or more\<close>

lemma scan_ge64_pre_select:
  assumes hb: "64 \<le> hostBits (scan_ipnet s)"
    and "pre_select x" and "sched (\<lambda>r. scanSeeder_run s) a x = Some y"
  shows "pre_select y"
proof -
  have n: "\<And>h st. snd (scan_step h (hostBits (scan_ipnet s)) st) = None"
    using hb by (rule scan_step_ge64)
  have r: "\<And>pc pc'. scanSeeder_run s pc = Some pc' \<Longrightarrow>
            pc = Spawned \<or> (\<exists>x. pc = AtLoop x) \<Longrightarrow>
            pc' = Spawned \<or> (\<exists>x. pc' = AtLoop x) \<or> pc' = Panicked"
    subgoal for pc pc'
      using hb n by (auto simp: scanSeeder_run_def Let_def split: option.splits prod.splits if_splits)
         (metis option.distinct(1) snd_conv)
    done
  show ?thesis
  proof (cases a)
    case (Run v)
    with assms(2,3) obtain pc' where p: "scanSeeder_run s (run x) = Some pc'" "y = x\<lparr>run := pc'\<rparr>"
      and q: "run x = Spawned \<or> (\<exists>x'. run x = AtLoop x')"
      by (auto simp: sched_def pre_select_def split: if_splits)
    from r[OF p(1) q] assms(2) show ?thesis by (auto simp: p(2) pre_select_def)
  qed (use assms(2,3) in \<open>auto simp: sched_def pre_select_def split: if_splits run_pc.splits\<close>)
qed

lemma probe_ge64_pre_select:
  assumes hb: "64 \<le> hostBits (probe_ipnet s)"
    and "pre_select x" and "sched (probeSeeder_run s) a x = Some y"
  shows "pre_select y"
proof -
  have d: "\<And>r. probe_draw (hostBits (probe_ipnet s)) r = None"
    using hb by (simp add: probe_draw_def Intn_def draw_arg_ge64)
  have r: "\<And>r pc pc'. probeSeeder_run s r pc = Some pc' \<Longrightarrow>
            pc = Spawned \<or> (\<exists>x. pc = AtLoop x) \<Longrightarrow>
            pc' = Spawned \<or> (\<exists>x. pc' = AtLoop x) \<or> pc' = Panicked"
    using hb d by (auto simp: probeSeeder_run_def Let_def split: option.splits if_splits)
  show ?thesis
  proof (cases a)
    case (Run v)
    with assms(2,3) obtain pc' where p: "probeSeeder_run s v (run x) = Some pc'" "y = x\<lparr>run := pc'\<rparr>"
      and q: "run x = Spawned \<or> (\<exists>x'. run x = AtLoop x')"
      by (auto simp: sched_def pre_select_def split: if_splits)
    from r[OF p(1) q] assms(2) show ?thesis by (auto simp: p(2) pre_select_def)
  qed (use assms(2,3) in \<open>auto simp: sched_def pre_select_def split: if_splits run_pc.splits\<close>)
qed

lemma pre_select_Start:
  "pre_select (fst (scanSeeder_Start s ph))" "pre_select (fst (probeSeeder_Start s' ph))"
  by (simp_all add: pre_select_def scanSeeder_Start_def probeSeeder_Start_def)

lemma scan_ge64_reach:
  assumes "64 \<le> hostBits (scan_ipnet s)" "scan_exec s ph acts = Some c"
  shows "pre_select c"
  using assms(2) unfolding scan_exec_def
  by (rule exec_invariant) (rule pre_select_Start, rule scan_ge64_pre_select[OF assms(1)])

lemma probe_ge64_reach:
  assumes "64 \<le> hostBits (probe_ipnet s)" "probe_exec s ph acts = Some c"
  shows "pre_select c"
  using assms(2) unfolding probe_exec_def
  by (rule exec_invariant) (rule pre_select_Start, rule probe_ge64_pre_select[OF assms(1)])

text \<open>
  Claim C1, at the network \<^verbatim>\<open>fe80::1/64\<close>. With 64 host bits \<^verbatim>\<open>1 << uint(hostBits)\<close> is 0,
  the upper bound of the scan is \<open>-1\<close>, and every candidate is skipped: under every
  schedule the consumer receives no address at all, so there is no first cycle.
\<close>

theorem scan_ipv6_net64_never_emits:
  "hostBits ipv6_net64 = 64 \<and>
   (\<forall>ph acts c. scan_exec \<lparr>scan_ipnet = ipv6_net64\<rparr> ph acts = Some c \<longrightarrow> sink c = [])"
proof -
  have h: "hostBits ipv6_net64 = 64" by (rule hostBits_ipv6_net64)
  have "pre_select c" if "scan_exec \<lparr>scan_ipnet = ipv6_net64\<rparr> ph acts = Some c" for ph acts c
    using that by (intro scan_ge64_reach[of "\<lparr>scan_ipnet = ipv6_net64\<rparr>"]) (simp_all add: h)
  then show ?thesis using h by (auto simp: pre_select_def)
qed

theorem scan_ipv6_net64_never_emits_witness:
  "scan_exec \<lparr>scan_ipnet = ipv6_net64\<rparr> 0 [Run 0, Run 0, Run 0, CloseCall, Run 0] =
     Some \<lparr>run = AtLoop (1, \<lparr>up = False, down = False, offset = 2\<rparr>), closer = SendingQuit, sink = [], phase = 0\<rparr>
   \<and> sink \<lparr>run = AtLoop (1 :: int, \<lparr>up = False, down = False, offset = 2\<rparr>), closer = SendingQuit, sink = [], phase = 0\<rparr> = []"
proof -
  have e: "scan_exec \<lparr>scan_ipnet = ipv6_net64\<rparr> 0 [Run 0, Run 0, Run 0, CloseCall, Run 0] =
     Some \<lparr>run = AtLoop (1, \<lparr>up = False, down = False, offset = 2\<rparr>), closer = SendingQuit, sink = [], phase = 0\<rparr>"
    by code_simp
  from scan_ipv6_net64_never_emits[THEN conjunct2, rule_format, OF e] e show ?thesis by simp
qed

text \<open>
  Claim C3, at the network \<^verbatim>\<open>fe80::1/64\<close>, which has 64 host bits. The scanning seeder
  never reaches its \<^verbatim>\<open>select\<close>, so the request of \<^verbatim>\<open>Close\<close> is never taken; the probing
  seeder panics at its first draw. Under no schedule does \<^verbatim>\<open>Close\<close> return.
\<close>

theorem close_never_returns_ipv6_net64:
  "2 \<le> hostBits ipv6_net64 \<and>
   (\<forall>ph acts c e. scan_exec \<lparr>scan_ipnet = ipv6_net64\<rparr> ph acts = Some c \<longrightarrow> closer c \<noteq> Returned e) \<and>
   (\<forall>ph acts d e. probe_exec \<lparr>probe_ipnet = ipv6_net64\<rparr> ph acts = Some d \<longrightarrow> closer d \<noteq> Returned e)"
proof -
  have h: "hostBits ipv6_net64 = 64" by (rule hostBits_ipv6_net64)
  have 1: "pre_select c" if "scan_exec \<lparr>scan_ipnet = ipv6_net64\<rparr> ph acts = Some c" for ph acts c
    using that by (intro scan_ge64_reach[of "\<lparr>scan_ipnet = ipv6_net64\<rparr>"]) (simp_all add: h)
  have 2: "pre_select d" if "probe_exec \<lparr>probe_ipnet = ipv6_net64\<rparr> ph acts = Some d" for ph acts d
    using that by (intro probe_ge64_reach[of "\<lparr>probe_ipnet = ipv6_net64\<rparr>"]) (simp_all add: h)
  show ?thesis
  proof (intro conjI allI impI)
    show "2 \<le> hostBits ipv6_net64" by (simp add: h)
  next
    fix ph acts c e
    assume "scan_exec \<lparr>scan_ipnet = ipv6_net64\<rparr> ph acts = Some c"
    from 1[OF this] show "closer c \<noteq> Returned e" by (auto simp: pre_select_def)
  next
    fix ph acts d e
    assume "probe_exec \<lparr>probe_ipnet = ipv6_net64\<rparr> ph acts = Some d"
    from 2[OF this] show "closer d \<noteq> Returned e" by (auto simp: pre_select_def)
  qed
qed

theorem close_never_returns_ipv6_net64_witness:
  "scan_exec \<lparr>scan_ipnet = ipv6_net64\<rparr> 0 [Run 0, CloseCall, Run 0, Run 0, Run 0]
     = Some \<lparr>run = AtLoop (1, \<lparr>up = False, down = False, offset = 2\<rparr>), closer = SendingQuit, sink = [], phase = 0\<rparr> \<and>
   scan_exec \<lparr>scan_ipnet = ipv6_net64\<rparr> 0 [Run 0, CloseCall, Run 0, Run 0, Run 0, QuitSync] = None \<and>
   probe_exec \<lparr>probe_ipnet = ipv6_net64\<rparr> 0 [Run 0, CloseCall, Run 0]
     = Some \<lparr>run = Panicked, closer = SendingQuit, sink = [], phase = 0\<rparr> \<and>
   probe_exec \<lparr>probe_ipnet = ipv6_net64\<rparr> 0 [Run 0, CloseCall, Run 0, QuitSync] = None \<and>
   SendingQuit \<noteq> Returned None"
proof -
  have e: "scan_exec \<lparr>scan_ipnet = ipv6_net64\<rparr> 0 [Run 0, CloseCall, Run 0, Run 0, Run 0]
     = Some \<lparr>run = AtLoop (1, \<lparr>up = False, down = False, offset = 2\<rparr>), closer = SendingQuit, sink = [], phase = 0\<rparr>"
    "scan_exec \<lparr>scan_ipnet = ipv6_net64\<rparr> 0 [Run 0, CloseCall, Run 0, Run 0, Run 0, QuitSync] = None"
    "probe_exec \<lparr>probe_ipnet = ipv6_net64\<rparr> 0 [Run 0, CloseCall, Run 0]
     = Some \<lparr>run = Panicked, closer = SendingQuit, sink = [], phase = 0\<rparr>"
    "probe_exec \<lparr>probe_ipnet = ipv6_net64\<rparr> 0 [Run 0, CloseCall, Run 0, QuitSync] = None"
    by code_simp+
  from close_never_returns_ipv6_net64[THEN conjunct2, THEN conjunct1, rule_format, OF e(1), of None]
  have "SendingQuit \<noteq> Returned None" by simp
  with e show ?thesis by (intro conjI)
qed

text \<open>
  Claim C10, at the network \<^verbatim>\<open>fe80::1/64\<close>. The argument of the draw,
  \<^verbatim>\<open>1<<uint(hostBits)-2\<close>, is \<open>-2\<close> there: \<^verbatim>\<open>rand.Intn\<close> panics for every state of the
  random source, and so does the goroutine at its first iteration.
\<close>

theorem probe_draw_ipv6_net64:
  "2 \<le> hostBits ipv6_net64 \<and>
   isub (shl1 (hostBits ipv6_net64)) 2 = - 2 \<and>
   Intn (isub (shl1 (hostBits ipv6_net64)) 2) r = None \<and>
   probe_draw (hostBits ipv6_net64) r = None \<and>
   probe_exec \<lparr>probe_ipnet = ipv6_net64\<rparr> ph [Run r0, Run r]
     = Some \<lparr>run = Panicked, closer = NotCalled, sink = [], phase = ph\<rparr>"
proof -
  have h: "hostBits ipv6_net64 = 64" by (rule hostBits_ipv6_net64)
  have a: "isub (shl1 (hostBits ipv6_net64)) 2 = - 2" by (simp add: h draw_arg_ge64)
  have d: "probe_draw (hostBits ipv6_net64) r = None" "probe_draw 64 r = None" for r
    using a by (simp_all add: probe_draw_def Intn_def h)
  have "probe_exec \<lparr>probe_ipnet = ipv6_net64\<rparr> ph [Run r0, Run r]
     = Some \<lparr>run = Panicked, closer = NotCalled, sink = [], phase = ph\<rparr>"
    by (simp add: probe_exec_def probeSeeder_Start_def sched_def probeSeeder_run_def d h)
  then show ?thesis using h a d by (simp add: Intn_def)
qed

theorem probe_draw_ipv6_net64_witness:
  "probe_draw (hostBits ipv6_net64) 5 = None \<and>
   probe_exec \<lparr>probe_ipnet = ipv6_net64\<rparr> 0 [Run 0, Run 5]
     = Some \<lparr>run = Panicked, closer = NotCalled, sink = [], phase = 0\<rparr>"
  using probe_draw_ipv6_net64[of 5 0 0] by (intro conjI) blast+

end
